theory Spec2Isabelle
  imports Complex_Main
begin

section \<open>Data model: Tensor objects in a store\<close>

text \<open>
  The program is \<^verbatim>\<open>tensor.py\<close>: a scalar reverse-mode differentiation engine.
  A \<^verbatim>\<open>Tensor\<close> object has the five attributes set by \<^verbatim>\<open>__init__\<close>.
  Objects are shared and compared by identity, so the model keeps them in a store
  (a list of objects) and refers to an object by its address, the index in the store.
  Python's \<^verbatim>\<open>float\<close> is modelled by \<open>real\<close>: arithmetic is exact, rounding and
  overflow are not modelled. The attribute \<^verbatim>\<open>value\<close> is called \<open>tvalue\<close>.
  The tuples \<^verbatim>\<open>args\<close> and \<^verbatim>\<open>local_derivatives\<close> are lists of addresses, and
  \<^verbatim>\<open>None\<close> is \<open>None\<close>.
\<close>

type_synonym addr = nat

record Tensor =
  tvalue :: real
  args :: "addr list option"
  local_derivatives :: "addr list option"
  derivative :: "real option"
  name :: "string option"

type_synonym heap = "Tensor list"

text \<open>\<^verbatim>\<open>Tensor(value, name)\<close>: allocates a new object and returns its address.\<close>

definition Tensor_init :: "real \<Rightarrow> string option \<Rightarrow> heap \<Rightarrow> addr \<times> heap" where
  "Tensor_init v nm h =
     (length h,
      h @ [\<lparr>tvalue = v, args = None, local_derivatives = None, derivative = None, name = nm\<rparr>])"

definition set_local_derivatives :: "addr \<Rightarrow> addr list \<Rightarrow> heap \<Rightarrow> heap" where
  "set_local_derivatives n ls h = h[n := (h ! n)\<lparr>local_derivatives := Some ls\<rparr>]"

definition set_args :: "addr \<Rightarrow> addr list \<Rightarrow> heap \<Rightarrow> heap" where
  "set_args n as h = h[n := (h ! n)\<lparr>args := Some as\<rparr>]"

definition set_derivative :: "addr \<Rightarrow> real option \<Rightarrow> heap \<Rightarrow> heap" where
  "set_derivative n d h = h[n := (h ! n)\<lparr>derivative := d\<rparr>]"

section \<open>Elementary operations\<close>

text \<open>
  \<^verbatim>\<open>_add\<close>, \<^verbatim>\<open>_sub\<close> and \<^verbatim>\<open>_mul\<close>, statement by statement. The result object is
  allocated first; \<^verbatim>\<open>_add\<close> and \<^verbatim>\<open>_sub\<close> then allocate two more objects for the
  local derivatives, left to right; \<^verbatim>\<open>_mul\<close> stores the operands \<^verbatim>\<open>(b, a)\<close>.
\<close>

definition op_add :: "addr \<Rightarrow> addr \<Rightarrow> heap \<Rightarrow> addr \<times> heap" where
  "op_add a b h =
     (let (result, h1) = Tensor_init (tvalue (h ! a) + tvalue (h ! b)) None h;
          (l1, h2) = Tensor_init 1 None h1;
          (l2, h3) = Tensor_init 1 None h2;
          h4 = set_local_derivatives result [l1, l2] h3;
          h5 = set_args result [a, b] h4
      in (result, h5))"

definition op_sub :: "addr \<Rightarrow> addr \<Rightarrow> heap \<Rightarrow> addr \<times> heap" where
  "op_sub a b h =
     (let (result, h1) = Tensor_init (tvalue (h ! a) - tvalue (h ! b)) None h;
          (l1, h2) = Tensor_init 1 None h1;
          (l2, h3) = Tensor_init (- 1) None h2;
          h4 = set_local_derivatives result [l1, l2] h3;
          h5 = set_args result [a, b] h4
      in (result, h5))"

definition op_mul :: "addr \<Rightarrow> addr \<Rightarrow> heap \<Rightarrow> addr \<times> heap" where
  "op_mul a b h =
     (let (result, h1) = Tensor_init (tvalue (h ! a) * tvalue (h ! b)) None h;
          h2 = set_local_derivatives result [b, a] h1;
          h3 = set_args result [a, b] h2
      in (result, h3))"

section \<open>Operator methods\<close>

text \<open>
  The right operand of an operator method is any Python value. The methods only test
  \<^verbatim>\<open>isinstance(x, Tensor)\<close> and \<^verbatim>\<open>isinstance(x, (int, float))\<close>, so a value is a
  Tensor (by address), an int, a float, or something else. A method either returns a
  new Tensor or returns \<^verbatim>\<open>NotImplemented\<close>, the value by which a Python operator method
  reports that it does not support the operand type.
\<close>

datatype operand = TensorArg addr | IntArg int | FloatArg real | OtherArg

datatype 'a dispatch = Returned 'a | NotImplemented

fun dunder_add :: "addr \<Rightarrow> operand \<Rightarrow> heap \<Rightarrow> (addr \<times> heap) dispatch" where
  "dunder_add self (TensorArg x) h = Returned (op_add self x h)"
| "dunder_add self (IntArg i) h =
     (let (x, h1) = Tensor_init (of_int i) None h in Returned (op_add self x h1))"
| "dunder_add self (FloatArg r) h =
     (let (x, h1) = Tensor_init r None h in Returned (op_add self x h1))"
| "dunder_add self OtherArg h = NotImplemented"

fun dunder_radd :: "addr \<Rightarrow> operand \<Rightarrow> heap \<Rightarrow> (addr \<times> heap) dispatch" where
  "dunder_radd self (TensorArg x) h = Returned (op_add x self h)"
| "dunder_radd self (IntArg i) h =
     (let (x, h1) = Tensor_init (of_int i) None h in Returned (op_add x self h1))"
| "dunder_radd self (FloatArg r) h =
     (let (x, h1) = Tensor_init r None h in Returned (op_add x self h1))"
| "dunder_radd self OtherArg h = NotImplemented"

fun dunder_sub :: "addr \<Rightarrow> operand \<Rightarrow> heap \<Rightarrow> (addr \<times> heap) dispatch" where
  "dunder_sub self (TensorArg x) h = Returned (op_sub self x h)"
| "dunder_sub self (IntArg i) h =
     (let (x, h1) = Tensor_init (of_int i) None h in Returned (op_sub self x h1))"
| "dunder_sub self (FloatArg r) h =
     (let (x, h1) = Tensor_init r None h in Returned (op_sub self x h1))"
| "dunder_sub self OtherArg h = NotImplemented"

fun dunder_rsub :: "addr \<Rightarrow> operand \<Rightarrow> heap \<Rightarrow> (addr \<times> heap) dispatch" where
  "dunder_rsub self (TensorArg x) h = Returned (op_sub x self h)"
| "dunder_rsub self (IntArg i) h =
     (let (x, h1) = Tensor_init (of_int i) None h in Returned (op_sub x self h1))"
| "dunder_rsub self (FloatArg r) h =
     (let (x, h1) = Tensor_init r None h in Returned (op_sub x self h1))"
| "dunder_rsub self OtherArg h = NotImplemented"

fun dunder_mul :: "addr \<Rightarrow> operand \<Rightarrow> heap \<Rightarrow> (addr \<times> heap) dispatch" where
  "dunder_mul self (TensorArg x) h = Returned (op_mul self x h)"
| "dunder_mul self (IntArg i) h =
     (let (x, h1) = Tensor_init (of_int i) None h in Returned (op_mul self x h1))"
| "dunder_mul self (FloatArg r) h =
     (let (x, h1) = Tensor_init r None h in Returned (op_mul self x h1))"
| "dunder_mul self OtherArg h = NotImplemented"

fun dunder_rmul :: "addr \<Rightarrow> operand \<Rightarrow> heap \<Rightarrow> (addr \<times> heap) dispatch" where
  "dunder_rmul self (TensorArg x) h = Returned (op_mul x self h)"
| "dunder_rmul self (IntArg i) h =
     (let (x, h1) = Tensor_init (of_int i) None h in Returned (op_mul x self h1))"
| "dunder_rmul self (FloatArg r) h =
     (let (x, h1) = Tensor_init r None h in Returned (op_mul x self h1))"
| "dunder_rmul self OtherArg h = NotImplemented"

section \<open>Graph builder\<close>

text \<open>
  \<^verbatim>\<open>build_topo\<close> threads the list \<^verbatim>\<open>order\<close> and the set \<^verbatim>\<open>visited\<close> through the
  recursion; the model passes and returns the pair. \<open>build_topo_args\<close> is the loop
  \<^verbatim>\<open>for arg in self.args\<close>. A Python reference always denotes a live object; the test
  \<open>self < length h\<close> only makes the function total on numbers that are no address of
  the store, where it returns its arguments.
\<close>

function build_topo :: "heap \<Rightarrow> addr \<Rightarrow> addr list \<times> addr set \<Rightarrow> addr list \<times> addr set"
  and build_topo_args :: "heap \<Rightarrow> addr list \<Rightarrow> addr list \<times> addr set \<Rightarrow> addr list \<times> addr set"
where
  "build_topo h self (order, visited) =
     (if self \<in> visited \<or> \<not> self < length h then (order, visited)
      else (case (case args (h ! self) of
                    None \<Rightarrow> (order, insert self visited)
                  | Some as \<Rightarrow> build_topo_args h as (order, insert self visited))
            of (order', visited') \<Rightarrow> (order' @ [self], visited')))"
| "build_topo_args h [] s = s"
| "build_topo_args h (arg # rest) s = build_topo_args h rest (build_topo h arg s)"
  by pat_completeness auto

text \<open>
  The recursion ends because every call that goes on visits an address of the store not
  visited before. The visited set only grows, which the nested call in the loop needs.
\<close>

lemma build_topo_visited_mono_dom:
  "build_topo_build_topo_args_dom (Inl (h, n, s)) \<Longrightarrow> snd s \<subseteq> snd (build_topo h n s)"
  "build_topo_build_topo_args_dom (Inr (h, as, s)) \<Longrightarrow> snd s \<subseteq> snd (build_topo_args h as s)"
proof (induction h n s and h as s rule: build_topo_build_topo_args.pinduct)
  case (1 h self order visited)
  then show ?case
    by (auto simp: build_topo.psimps split: option.splits prod.splits)
next
  case (2 h s)
  then show ?case by (simp add: build_topo_args.psimps)
next
  case (3 h arg rest s)
  then show ?case by (auto simp: build_topo_args.psimps)
qed

termination build_topo
proof (relation "inv_image (less_than <*lex*> less_than)
    (\<lambda>x. case x of
        Inl (h, n, s) \<Rightarrow> (card ({..<length h} - snd s), 0)
      | Inr (h, as, s) \<Rightarrow> (card ({..<length h} - snd s), Suc (length as)))", goal_cases)
  case 1
  then show ?case by (intro wf_inv_image wf_lex_prod wf_less_than)
next
  case (2 h self order visited x2)
  then have "{..<length h} - insert self visited \<subset> {..<length h} - visited"
    by auto
  then have "card ({..<length h} - insert self visited) < card ({..<length h} - visited)"
    by (intro psubset_card_mono) auto
  then show ?case by simp
next
  case (3 h arg rest s)
  then show ?case by simp
next
  case (4 h arg rest s)
  have "snd s \<subseteq> snd (build_topo h arg s)"
    using 4 build_topo_visited_mono_dom(1) by blast
  then have "card ({..<length h} - snd (build_topo h arg s)) \<le> card ({..<length h} - snd s)"
    by (intro card_mono) auto
  then show ?case by auto
qed

section \<open>Backward engine and clearing\<close>

text \<open>
  Python raises \<^verbatim>\<open>TypeError\<close> at \<^verbatim>\<open>node.derivative * local_derivative.value\<close> when
  \<^verbatim>\<open>node.derivative\<close> is \<^verbatim>\<open>None\<close>, and at \<^verbatim>\<open>zip(node.args, node.local_derivatives)\<close>
  when \<^verbatim>\<open>node.local_derivatives\<close> is \<^verbatim>\<open>None\<close>. Both are the value \<open>Inl TypeError\<close>.
\<close>

datatype error = TypeError

text \<open>The inner loop of \<^verbatim>\<open>backward\<close>, over \<^verbatim>\<open>zip(node.args, node.local_derivatives)\<close>.\<close>

fun backward_args :: "addr \<Rightarrow> (addr \<times> addr) list \<Rightarrow> heap \<Rightarrow> error + heap" where
  "backward_args node [] h = Inr h"
| "backward_args node ((arg, local_derivative) # rest) h =
     (case derivative (h ! node) of
        None \<Rightarrow> Inl TypeError
      | Some d \<Rightarrow>
          (let contrib = d * tvalue (h ! local_derivative)
           in backward_args node rest
                (case derivative (h ! arg) of
                   None \<Rightarrow> set_derivative arg (Some contrib) h
                 | Some d' \<Rightarrow> set_derivative arg (Some (d' + contrib)) h)))"

text \<open>The outer loop, \<^verbatim>\<open>for node in reversed(order)\<close>; it is given the reversed list.\<close>

fun backward_nodes :: "addr list \<Rightarrow> heap \<Rightarrow> error + heap" where
  "backward_nodes [] h = Inr h"
| "backward_nodes (node # rest) h =
     (case args (h ! node) of
        None \<Rightarrow> backward_nodes rest h
      | Some as \<Rightarrow>
          (case local_derivatives (h ! node) of
             None \<Rightarrow> Inl TypeError
           | Some ls \<Rightarrow>
               (case backward_args node (zip as ls) h of
                  Inl e \<Rightarrow> Inl e
                | Inr h' \<Rightarrow> backward_nodes rest h')))"

definition backward :: "addr \<Rightarrow> heap \<Rightarrow> error + heap" where
  "backward self h =
     (let h1 = set_derivative self (Some 1) h;
          (order, visited) = build_topo h1 self ([], {})
      in backward_nodes (rev order) h1)"

fun clear_nodes :: "addr list \<Rightarrow> heap \<Rightarrow> heap" where
  "clear_nodes [] h = h"
| "clear_nodes (node # rest) h = clear_nodes rest (set_derivative node None h)"

definition clear_derivatives :: "addr \<Rightarrow> heap \<Rightarrow> heap" where
  "clear_derivatives self h =
     (let (order, visited) = build_topo h self ([], {})
      in clear_nodes order h)"

section \<open>Notions used to state the properties\<close>

text \<open>
  The parents of an object are the entries of its \<^verbatim>\<open>args\<close> (none for a leaf). An edge
  goes from a parent to the object that holds it in \<^verbatim>\<open>args\<close>; the objects reachable
  from a root are the root and everything reached from it along parent links.
\<close>

definition parents :: "heap \<Rightarrow> addr \<Rightarrow> addr list" where
  "parents h n = (case args (h ! n) of None \<Rightarrow> [] | Some as \<Rightarrow> as)"

definition edges :: "heap \<Rightarrow> (addr \<times> addr) set" where
  "edges h = {(a, n). n < length h \<and> a \<in> set (parents h n)}"

definition reachable :: "heap \<Rightarrow> addr \<Rightarrow> addr set" where
  "reachable h rt = {m. (m, rt) \<in> (edges h)\<^sup>*}"

text \<open>
  In a well-formed store every reference denotes an object of the store, and an object
  with \<^verbatim>\<open>args\<close> has \<^verbatim>\<open>local_derivatives\<close> of the same length, as every object made by
  the constructor and the three operations has. The graph is acyclic when no object is
  its own ancestor.
\<close>

definition well_formed :: "heap \<Rightarrow> bool" where
  "well_formed h \<longleftrightarrow>
     (\<forall>n<length h. case args (h ! n) of
        None \<Rightarrow> True
      | Some as \<Rightarrow>
          (\<forall>a\<in>set as. a < length h) \<and>
          (case local_derivatives (h ! n) of
             None \<Rightarrow> False
           | Some ls \<Rightarrow> length ls = length as \<and> (\<forall>l\<in>set ls. l < length h)))"

definition dag :: "heap \<Rightarrow> bool" where
  "dag h \<longleftrightarrow> acyclic (edges h)"

text \<open>A store of two leaves, of values 2 and 3, for the concrete instances below.\<close>

definition two_leaves :: heap where
  "two_leaves = snd (Tensor_init 3 None (snd (Tensor_init 2 None [])))"

text \<open>
  A list of objects has its parents first when the parents of each element are in the
  set \<open>seen\<close> or earlier in the list.
\<close>

fun parents_before :: "heap \<Rightarrow> addr set \<Rightarrow> addr list \<Rightarrow> bool" where
  "parents_before h seen [] = True"
| "parents_before h seen (n # ns) =
     (set (parents h n) \<subseteq> seen \<and> parents_before h (insert n seen) ns)"

text \<open>
  The effect of one call of the graph builder on \<^verbatim>\<open>order\<close> and \<^verbatim>\<open>visited\<close>: it appends
  a list of new, distinct objects of the store, all from the set \<open>R\<close>, and adds them to
  the visited set.
\<close>

definition extends :: "heap \<Rightarrow> addr list \<times> addr set \<Rightarrow> addr list \<times> addr set \<Rightarrow> addr set \<Rightarrow> bool" where
  "extends h s s' R \<longleftrightarrow>
     (\<exists>new. fst s' = fst s @ new \<and> snd s' = snd s \<union> set new \<and> distinct new \<and>
        set new \<inter> snd s = {} \<and> set new \<subseteq> R \<and> (\<forall>m\<in>set new. m < length h) \<and>
        parents_before h (snd s) new)"

text \<open>
  The store of \<^verbatim>\<open>quicktest.py\<close>: \<open>x = 5\<close> and \<open>c = 3\<close> at the addresses 0 and 1, \<open>x + c\<close>
  at 2, \<open>x * (x + c)\<close> at 5, the wrapped literal 5 at 6 and \<open>y = 5 + x * (x + c)\<close> at 7.
\<close>

definition quicktest_heap :: heap where
  "quicktest_heap =
     (let (x, h1) = Tensor_init 5 (Some ''x'') [];
          (c, h2) = Tensor_init 3 (Some ''c'') h1;
          (s, h3) = op_add x c h2;
          (p, h4) = op_mul x s h3;
          (k, h5) = Tensor_init 5 None h4;
          (y, h6) = op_add k p h5
      in h6)"

text \<open>
  The store with every \<^verbatim>\<open>derivative\<close> set to \<^verbatim>\<open>None\<close>: what is left of a store when
  the derivatives are ignored.
\<close>

definition skeleton :: "heap \<Rightarrow> heap" where
  "skeleton h = map (\<lambda>t. t\<lparr>derivative := None\<rparr>) h"

text \<open>The store of \<^verbatim>\<open>quicktest.py\<close> after \<^verbatim>\<open>y.backward()\<close>.\<close>

definition quicktest_result :: heap where
  "quicktest_result =
    [\<lparr>tvalue = 5, args = None, local_derivatives = None, derivative = Some 13, name = Some ''x''\<rparr>,
     \<lparr>tvalue = 3, args = None, local_derivatives = None, derivative = Some 5, name = Some ''c''\<rparr>,
     \<lparr>tvalue = 8, args = Some [0, 1], local_derivatives = Some [3, 4], derivative = Some 5, name = None\<rparr>,
     \<lparr>tvalue = 1, args = None, local_derivatives = None, derivative = None, name = None\<rparr>,
     \<lparr>tvalue = 1, args = None, local_derivatives = None, derivative = None, name = None\<rparr>,
     \<lparr>tvalue = 40, args = Some [0, 2], local_derivatives = Some [2, 0], derivative = Some 1, name = None\<rparr>,
     \<lparr>tvalue = 5, args = None, local_derivatives = None, derivative = Some 1, name = None\<rparr>,
     \<lparr>tvalue = 45, args = Some [6, 5], local_derivatives = Some [8, 9], derivative = Some 1, name = None\<rparr>,
     \<lparr>tvalue = 1, args = None, local_derivatives = None, derivative = None, name = None\<rparr>,
     \<lparr>tvalue = 1, args = None, local_derivatives = None, derivative = None, name = None\<rparr>]"

text \<open>The derivative of an object read as a number: an absent derivative counts as 0.\<close>

definition adjoint :: "heap \<Rightarrow> addr \<Rightarrow> real" where
  "adjoint h n = (case derivative (h ! n) of None \<Rightarrow> 0 | Some d \<Rightarrow> d)"

text \<open>
  A list of objects is ready for the backward loop, given the set \<open>D\<close> of objects whose
  derivative is present, when each element is in \<open>D\<close> once the parents of the elements
  before it have been added to \<open>D\<close>. A list is covered when each element is in \<open>D\<close> or
  is a parent of a later element.
\<close>

fun ready :: "heap \<Rightarrow> addr set \<Rightarrow> addr list \<Rightarrow> bool" where
  "ready h D [] = True"
| "ready h D (n # rest) = (n \<in> D \<and> ready h (D \<union> set (parents h n)) rest)"

fun covered :: "heap \<Rightarrow> addr set \<Rightarrow> addr list \<Rightarrow> bool" where
  "covered h D [] = True"
| "covered h D (m # xs) =
     ((m \<in> D \<or> (\<exists>c\<in>set xs. m \<in> set (parents h c))) \<and> covered h D xs)"

text \<open>
  The parents of an object paired with the values of its local derivatives: the list
  that \<^verbatim>\<open>zip(node.args, node.local_derivatives)\<close> runs over, each local derivative read
  through its \<^verbatim>\<open>value\<close>.
\<close>

definition local_values :: "heap \<Rightarrow> addr \<Rightarrow> real list" where
  "local_values h n =
     (case local_derivatives (h ! n) of None \<Rightarrow> [] | Some ls \<Rightarrow> map (\<lambda>l. tvalue (h ! l)) ls)"

definition weights :: "heap \<Rightarrow> addr \<Rightarrow> (addr \<times> real) list" where
  "weights h n = zip (parents h n) (local_values h n)"

text \<open>In a list with its parents after, the parents of each element are later in the list.\<close>

fun parents_after :: "heap \<Rightarrow> addr list \<Rightarrow> bool" where
  "parents_after h [] = True"
| "parents_after h (c # rest) = (set (parents h c) \<subseteq> set rest \<and> parents_after h rest)"

text \<open>
  A graph built from the elementary operations is the store left by a sequence of
  constructor calls and calls of \<^verbatim>\<open>_add\<close>, \<^verbatim>\<open>_sub\<close> and \<^verbatim>\<open>_mul\<close>, run from the empty
  store. The sequence is valid when the operands of every call are objects that the
  calls before it have made.
\<close>

datatype instr = Leaf real "string option" | Add addr addr | Sub addr addr | Mul addr addr

fun exec :: "instr \<Rightarrow> heap \<Rightarrow> heap" where
  "exec (Leaf v nm) h = snd (Tensor_init v nm h)"
| "exec (Add a b) h = snd (op_add a b h)"
| "exec (Sub a b) h = snd (op_sub a b h)"
| "exec (Mul a b) h = snd (op_mul a b h)"

definition build :: "instr list \<Rightarrow> heap" where
  "build prog = foldl (\<lambda>h i. exec i h) [] prog"

fun operands :: "instr \<Rightarrow> addr list" where
  "operands (Leaf v nm) = []"
| "operands (Add a b) = [a, b]"
| "operands (Sub a b) = [a, b]"
| "operands (Mul a b) = [a, b]"

definition valid_prog :: "instr list \<Rightarrow> bool" where
  "valid_prog prog \<longleftrightarrow>
     (\<forall>k<length prog. \<forall>a\<in>set (operands (prog ! k)). a < length (build (take k prog)))"

text \<open>
  The mathematical reference for the partial derivative with respect to the object
  \<open>m\<close>: the forward values of all objects, computed again by the same sequence of
  operations, with the value of \<open>m\<close> replaced by the variable \<open>x\<close> wherever it is used.
  The partial derivative of the root with respect to \<open>m\<close> is the derivative of the
  root's value, as a function of \<open>x\<close>, at the value that \<open>m\<close> has.
\<close>

fun step_values :: "instr \<Rightarrow> real list \<Rightarrow> real list" where
  "step_values (Leaf v nm) vs = vs @ [v]"
| "step_values (Add a b) vs = vs @ [vs ! a + vs ! b, 1, 1]"
| "step_values (Sub a b) vs = vs @ [vs ! a - vs ! b, 1, - 1]"
| "step_values (Mul a b) vs = vs @ [vs ! a * vs ! b]"

definition eval_with :: "addr \<Rightarrow> real \<Rightarrow> instr list \<Rightarrow> real list" where
  "eval_with m x prog = foldl (\<lambda>vs i. (step_values i vs)[m := x]) [] prog"

text \<open>Notions of the proof: a new leaf, a store whose parents have smaller addresses, and
  a family \<open>F\<close> of derivatives of all objects with respect to \<open>m\<close>.\<close>

definition leaf_object :: "real \<Rightarrow> string option \<Rightarrow> Tensor" where
  "leaf_object v nm =
     \<lparr>tvalue = v, args = None, local_derivatives = None, derivative = None, name = nm\<rparr>"

definition ordered :: "heap \<Rightarrow> bool" where
  "ordered h \<longleftrightarrow> (\<forall>n<length h. \<forall>a\<in>set (parents h n). a < n)"

definition tangent_ok :: "addr \<Rightarrow> real \<Rightarrow> instr list \<Rightarrow> (addr \<Rightarrow> real) \<Rightarrow> bool" where
  "tangent_ok m x0 prog F \<longleftrightarrow>
     (\<forall>n<length (build prog).
        ((\<lambda>x. eval_with m x prog ! n) has_field_derivative F n) (at x0) \<and>
        (n = m \<longrightarrow> F n = 1) \<and>
        (n \<noteq> m \<longrightarrow> F n = (\<Sum>(a, w)\<leftarrow>weights (build prog) n. w * F a)))"

text \<open>The calls \<^verbatim>\<open>quicktest.py\<close> makes, operator methods resolved to the core calls.\<close>

definition quicktest_prog :: "instr list" where
  "quicktest_prog =
     [Leaf 5 (Some ''x''), Leaf 3 (Some ''c''), Add 0 1, Mul 0 2, Leaf 5 None, Add 6 5]"

declare build_topo.simps [simp del]

section \<open>Elementary operations and operator methods\<close>

lemma two_leaves_eq:
  "two_leaves =
     [\<lparr>tvalue = 2, args = None, local_derivatives = None, derivative = None, name = None\<rparr>,
      \<lparr>tvalue = 3, args = None, local_derivatives = None, derivative = None, name = None\<rparr>]"
  by (simp add: two_leaves_def Tensor_init_def)

text \<open>
  C5. For operands \<open>a\<close> and \<open>b\<close> of the store, \<^verbatim>\<open>_add\<close> returns an object of value
  \<open>a.value + b.value\<close> whose two local derivatives have the values 1 and 1, \<^verbatim>\<open>_sub\<close> one
  of value \<open>a.value - b.value\<close> with the values 1 and -1, \<^verbatim>\<open>_mul\<close> one of value
  \<open>a.value * b.value\<close> with the values \<open>b.value\<close> and \<open>a.value\<close>, read in the store the
  operation was called in; in each case \<^verbatim>\<open>args\<close> is \<open>[a, b]\<close>, in that order, and the
  local derivatives are stored in the same order.
\<close>

theorem elementary_operations_result:
  assumes "a < length h" and "b < length h"
  shows "(case op_add a b h of (r, h') \<Rightarrow>
            tvalue (h' ! r) = tvalue (h ! a) + tvalue (h ! b) \<and> args (h' ! r) = Some [a, b] \<and>
            (\<exists>l1 l2. local_derivatives (h' ! r) = Some [l1, l2] \<and>
               tvalue (h' ! l1) = 1 \<and> tvalue (h' ! l2) = 1)) \<and>
         (case op_sub a b h of (r, h') \<Rightarrow>
            tvalue (h' ! r) = tvalue (h ! a) - tvalue (h ! b) \<and> args (h' ! r) = Some [a, b] \<and>
            (\<exists>l1 l2. local_derivatives (h' ! r) = Some [l1, l2] \<and>
               tvalue (h' ! l1) = 1 \<and> tvalue (h' ! l2) = - 1)) \<and>
         (case op_mul a b h of (r, h') \<Rightarrow>
            tvalue (h' ! r) = tvalue (h ! a) * tvalue (h ! b) \<and> args (h' ! r) = Some [a, b] \<and>
            (\<exists>l1 l2. local_derivatives (h' ! r) = Some [l1, l2] \<and>
               tvalue (h' ! l1) = tvalue (h ! b) \<and> tvalue (h' ! l2) = tvalue (h ! a)))"
  using assms
  by (simp add: op_add_def op_sub_def op_mul_def Tensor_init_def set_args_def
      set_local_derivatives_def nth_append Let_def)

theorem elementary_operations_result_witness:
  "0 < length two_leaves \<and> 1 < length two_leaves \<and>
   tvalue (snd (op_add 0 1 two_leaves) ! fst (op_add 0 1 two_leaves)) = 5 \<and>
   tvalue (snd (op_sub 0 1 two_leaves) ! fst (op_sub 0 1 two_leaves)) = - 1 \<and>
   tvalue (snd (op_mul 0 1 two_leaves) ! fst (op_mul 0 1 two_leaves)) = 6"
  using elementary_operations_result [of 0 two_leaves 1]
  by (simp add: two_leaves_eq split: prod.splits)

text \<open>
  C6, as stated, fails for \<^verbatim>\<open>_mul\<close>: on the two leaves at addresses 0 and 1 the product
  is the object at address 2, and its local derivatives are the operand objects 1 and 0
  themselves.
\<close>

theorem mul_local_derivatives_are_operands:
  "fst (op_mul 0 1 two_leaves) = 2 \<and>
   args (snd (op_mul 0 1 two_leaves) ! 2) = Some [0, 1] \<and>
   local_derivatives (snd (op_mul 0 1 two_leaves) ! 2) = Some [1, 0]"
  by (simp add: two_leaves_eq op_mul_def Tensor_init_def set_args_def
      set_local_derivatives_def Let_def)

text \<open>
  C6, amended. \<^verbatim>\<open>_add\<close> and \<^verbatim>\<open>_sub\<close> allocate three objects: the result, at the first
  free address, and after it the two local derivatives, which are new leaves with no
  \<^verbatim>\<open>args\<close>, no \<^verbatim>\<open>local_derivatives\<close> and no \<^verbatim>\<open>derivative\<close>; being new, they are neither
  operand. \<^verbatim>\<open>_mul\<close> allocates the result only: its local derivatives are the operands
  \<open>b\<close> and \<open>a\<close> themselves, left as they are.
\<close>

theorem local_derivative_entries:
  assumes "a < length h" and "b < length h"
  shows "(case op_add a b h of (r, h') \<Rightarrow>
            r = length h \<and> length h' = length h + 3 \<and>
            local_derivatives (h' ! r) = Some [length h + 1, length h + 2] \<and>
            h' ! (length h + 1) = \<lparr>tvalue = 1, args = None, local_derivatives = None,
                                    derivative = None, name = None\<rparr> \<and>
            h' ! (length h + 2) = \<lparr>tvalue = 1, args = None, local_derivatives = None,
                                    derivative = None, name = None\<rparr>) \<and>
         (case op_sub a b h of (r, h') \<Rightarrow>
            r = length h \<and> length h' = length h + 3 \<and>
            local_derivatives (h' ! r) = Some [length h + 1, length h + 2] \<and>
            h' ! (length h + 1) = \<lparr>tvalue = 1, args = None, local_derivatives = None,
                                    derivative = None, name = None\<rparr> \<and>
            h' ! (length h + 2) = \<lparr>tvalue = - 1, args = None, local_derivatives = None,
                                    derivative = None, name = None\<rparr>) \<and>
         (case op_mul a b h of (r, h') \<Rightarrow>
            r = length h \<and> length h' = length h + 1 \<and>
            local_derivatives (h' ! r) = Some [b, a] \<and> h' ! a = h ! a \<and> h' ! b = h ! b)"
  using assms
  by (simp add: op_add_def op_sub_def op_mul_def Tensor_init_def set_args_def
      set_local_derivatives_def nth_append Let_def)

theorem local_derivative_entries_witness:
  "0 < length two_leaves \<and> 1 < length two_leaves \<and>
   local_derivatives (snd (op_add 0 1 two_leaves) ! 2) = Some [3, 4] \<and>
   local_derivatives (snd (op_sub 0 1 two_leaves) ! 2) = Some [3, 4] \<and>
   local_derivatives (snd (op_mul 0 1 two_leaves) ! 2) = Some [1, 0]"
  using local_derivative_entries [of 0 two_leaves 1]
  by (simp add: two_leaves_eq op_add_def op_sub_def op_mul_def Tensor_init_def set_args_def
      set_local_derivatives_def Let_def)

text \<open>
  C8. Each of the six operator methods returns \<^verbatim>\<open>NotImplemented\<close> exactly when its
  operand is neither a Tensor nor an int or float: for such an operand nothing is
  built, and for a Tensor, an int or a float the method always returns a result.
  (\<^verbatim>\<open>NotImplemented\<close> is what Python's operator dispatch turns into the
  unsupported-operand \<^verbatim>\<open>TypeError\<close> of the caller when the other operand's type does
  not handle the operation either; the dispatch is Python's, not the program's.)
\<close>

theorem operators_unsupported_operand:
  "(dunder_add self x h = NotImplemented \<longleftrightarrow> x = OtherArg) \<and>
   (dunder_radd self x h = NotImplemented \<longleftrightarrow> x = OtherArg) \<and>
   (dunder_sub self x h = NotImplemented \<longleftrightarrow> x = OtherArg) \<and>
   (dunder_rsub self x h = NotImplemented \<longleftrightarrow> x = OtherArg) \<and>
   (dunder_mul self x h = NotImplemented \<longleftrightarrow> x = OtherArg) \<and>
   (dunder_rmul self x h = NotImplemented \<longleftrightarrow> x = OtherArg)"
  by (cases x) (simp_all add: Tensor_init_def)

text \<open>
  C10. For \<open>x\<close> constructed from the value 3 (in any store, under any name), the
  operator methods wrap the number as a new leaf Tensor \<open>w\<close>, allocated next, and call
  the core operation with \<open>w\<close> on the side the number was on: \<open>x + 2\<close> and \<open>2 + x\<close> have
  the value 5, \<open>x * 4\<close> and \<open>4 * x\<close> the value 12.
\<close>

theorem scalar_coercion:
  "(case Tensor_init 3 nm h of (x, hx) \<Rightarrow>
     (\<exists>r h'. dunder_add x (IntArg 2) hx = Returned (r, h') \<and> tvalue (h' ! r) = 5 \<and>
        args (h' ! r) = Some [x, length hx] \<and> h' ! length hx = leaf_object 2 None) \<and>
     (\<exists>r h'. dunder_radd x (IntArg 2) hx = Returned (r, h') \<and> tvalue (h' ! r) = 5 \<and>
        args (h' ! r) = Some [length hx, x] \<and> h' ! length hx = leaf_object 2 None) \<and>
     (\<exists>r h'. dunder_mul x (IntArg 4) hx = Returned (r, h') \<and> tvalue (h' ! r) = 12 \<and>
        args (h' ! r) = Some [x, length hx] \<and> h' ! length hx = leaf_object 4 None) \<and>
     (\<exists>r h'. dunder_rmul x (IntArg 4) hx = Returned (r, h') \<and> tvalue (h' ! r) = 12 \<and>
        args (h' ! r) = Some [length hx, x] \<and> h' ! length hx = leaf_object 4 None))"
  by (simp add: Tensor_init_def op_add_def op_mul_def set_args_def set_local_derivatives_def
      nth_append Let_def leaf_object_def)

section \<open>The graph builder\<close>

lemma parents_before_append:
  "parents_before h S (xs @ ys) \<longleftrightarrow> parents_before h S xs \<and> parents_before h (S \<union> set xs) ys"
  by (induction xs arbitrary: S) auto

lemma parents_before_drop:
  "parents_before h (insert n S) xs \<Longrightarrow> \<forall>m\<in>set xs. n \<notin> set (parents h m) \<Longrightarrow>
   parents_before h S xs"
proof (induction xs arbitrary: S)
  case Nil
  then show ?case by simp
next
  case (Cons m ms)
  from Cons.prems have "parents_before h (insert n (insert m S)) ms"
    by (simp add: insert_commute)
  with Cons show ?case by auto
qed

lemma parents_before_closed:
  "parents_before h S xs \<Longrightarrow> m \<in> set xs \<Longrightarrow> set (parents h m) \<subseteq> S \<union> set xs"
  by (induction xs arbitrary: S) fastforce+

lemma parents_before_index:
  "parents_before h S xs \<Longrightarrow> i < length xs \<Longrightarrow> a \<in> set (parents h (xs ! i)) \<Longrightarrow>
   a \<in> S \<or> (\<exists>j<i. xs ! j = a)"
proof (induction xs arbitrary: S i)
  case Nil
  then show ?case by simp
next
  case (Cons x xs)
  show ?case
  proof (cases i)
    case 0
    with Cons.prems show ?thesis by auto
  next
    case (Suc k)
    with Cons.prems have "a \<in> insert x S \<or> (\<exists>j<k. xs ! j = a)"
      by (intro Cons.IH) auto
    then show ?thesis
    proof
      assume "a \<in> insert x S"
      then show ?thesis using Suc by auto
    next
      assume "\<exists>j<k. xs ! j = a"
      then obtain j where "j < k" "xs ! j = a" by blast
      then have "Suc j < i" "(x # xs) ! Suc j = a" using Suc by auto
      then show ?thesis by blast
    qed
  qed
qed

lemma extends_trans:
  assumes "extends h s s1 R1" and "extends h s1 s2 R2"
  shows "extends h s s2 (R1 \<union> R2)"
proof -
  from assms(1) obtain n1 where n1: "fst s1 = fst s @ n1" "snd s1 = snd s \<union> set n1" "distinct n1"
      "set n1 \<inter> snd s = {}" "set n1 \<subseteq> R1" "\<forall>m\<in>set n1. m < length h" "parents_before h (snd s) n1"
    unfolding extends_def by blast
  from assms(2) obtain n2 where n2: "fst s2 = fst s1 @ n2" "snd s2 = snd s1 \<union> set n2" "distinct n2"
      "set n2 \<inter> snd s1 = {}" "set n2 \<subseteq> R2" "\<forall>m\<in>set n2. m < length h" "parents_before h (snd s1) n2"
    unfolding extends_def by blast
  have "fst s2 = fst s @ (n1 @ n2)" using n1 n2 by simp
  moreover have "snd s2 = snd s \<union> set (n1 @ n2)" using n1 n2 by auto
  moreover have "distinct (n1 @ n2)" using n1 n2 by auto
  moreover have "set (n1 @ n2) \<inter> snd s = {}" using n1 n2 by auto
  moreover have "set (n1 @ n2) \<subseteq> R1 \<union> R2" using n1 n2 by auto
  moreover have "\<forall>m\<in>set (n1 @ n2). m < length h" using n1 n2 by auto
  moreover have "parents_before h (snd s) (n1 @ n2)"
    using n1 n2 by (simp add: parents_before_append)
  ultimately show ?thesis unfolding extends_def by blast
qed

lemma reachable_refl: "n \<in> reachable h n"
  by (simp add: reachable_def)

lemma reachable_parent:
  "n < length h \<Longrightarrow> a \<in> set (parents h n) \<Longrightarrow> m \<in> reachable h a \<Longrightarrow> m \<in> reachable h n"
  unfolding reachable_def edges_def by (auto intro: rtrancl_into_rtrancl)

lemma dag_no_back_edge:
  assumes "dag h" and "n < length h" and "a \<in> set (parents h n)" and "m \<in> reachable h a"
    and "m < length h"
  shows "n \<notin> set (parents h m)"
proof
  assume "n \<in> set (parents h m)"
  then have "(n, m) \<in> edges h" using assms(5) by (simp add: edges_def)
  moreover have "(m, a) \<in> (edges h)\<^sup>*" using assms(4) by (simp add: reachable_def)
  moreover have "(a, n) \<in> edges h" using assms(2,3) by (simp add: edges_def)
  ultimately have "(n, n) \<in> (edges h)\<^sup>+"
    by (blast intro: rtrancl_into_trancl2 trancl_into_trancl)
  then show False using assms(1) by (simp add: dag_def acyclic_def)
qed

lemma dag_no_self_edge:
  assumes "dag h" and "n < length h"
  shows "n \<notin> set (parents h n)"
  using dag_no_back_edge [OF assms(1,2) _ reachable_refl assms(2)] by blast

lemma well_formed_node:
  assumes "well_formed h" and "n < length h" and "args (h ! n) = Some as"
  shows "(\<forall>a\<in>set as. a < length h) \<and>
         (\<exists>ls. local_derivatives (h ! n) = Some ls \<and> length ls = length as \<and>
            (\<forall>l\<in>set ls. l < length h))"
proof -
  have "case args (h ! n) of None \<Rightarrow> True
        | Some as \<Rightarrow> (\<forall>a\<in>set as. a < length h) \<and>
            (case local_derivatives (h ! n) of None \<Rightarrow> False
             | Some ls \<Rightarrow> length ls = length as \<and> (\<forall>l\<in>set ls. l < length h))"
    using assms(1,2) unfolding well_formed_def by blast
  then show ?thesis using assms(3) by (simp split: option.splits)
qed

lemma well_formed_parents:
  assumes "well_formed h" and "n < length h" and "a \<in> set (parents h n)"
  shows "a < length h"
proof (cases "args (h ! n)")
  case None
  then show ?thesis using assms(3) by (simp add: parents_def)
next
  case (Some as)
  then show ?thesis
    using well_formed_node [OF assms(1,2) Some] assms(3) by (simp add: parents_def)
qed

lemma build_topo_extends:
  "well_formed h \<Longrightarrow> dag h \<Longrightarrow>
     extends h s (build_topo h n s) (reachable h n) \<and>
     (n < length h \<longrightarrow> n \<in> snd (build_topo h n s))"
  "well_formed h \<Longrightarrow> dag h \<Longrightarrow> \<forall>a\<in>set as. a < length h \<Longrightarrow>
     extends h s (build_topo_args h as s) (\<Union>a\<in>set as. reachable h a) \<and>
     set as \<subseteq> snd (build_topo_args h as s)"
proof (induction h n s and h as s rule: build_topo_build_topo_args.induct)
  case (1 h self order visited)
  show ?case
  proof (cases "self \<in> visited \<or> \<not> self < length h")
    case True
    then show ?thesis
      by (auto simp: build_topo.simps extends_def)
  next
    case False
    then have fresh: "self \<notin> visited" and live: "self < length h" by auto
    show ?thesis
    proof (cases "args (h ! self)")
      case None
      then have "build_topo h self (order, visited) = (order @ [self], insert self visited)"
        using False by (simp add: build_topo.simps)
      moreover have "parents h self = []" using None by (simp add: parents_def)
      ultimately show ?thesis
        using fresh live by (auto simp: extends_def reachable_refl)
    next
      case (Some as)
      define s2 where "s2 = build_topo_args h as (order, insert self visited)"
      have res: "build_topo h self (order, visited) = (fst s2 @ [self], snd s2)"
        using False Some by (simp add: build_topo.simps s2_def split: prod.splits)
      have par: "parents h self = as" using Some by (simp add: parents_def)
      have live_as: "\<forall>a\<in>set as. a < length h"
        using well_formed_parents [OF "1.prems"(1) live] par by blast
      have ih: "extends h (order, insert self visited) s2 (\<Union>a\<in>set as. reachable h a)"
        and vis: "set as \<subseteq> snd s2"
        using "1.IH" [OF False Some "1.prems" live_as] by (simp_all add: s2_def)
      from ih obtain new where new: "fst s2 = order @ new" "snd s2 = insert self visited \<union> set new"
          "distinct new" "set new \<inter> insert self visited = {}"
          "set new \<subseteq> (\<Union>a\<in>set as. reachable h a)" "\<forall>m\<in>set new. m < length h"
          "parents_before h (insert self visited) new"
        unfolding extends_def by auto
      have noback: "\<forall>m\<in>set new. self \<notin> set (parents h m)"
      proof
        fix m assume m: "m \<in> set new"
        then obtain a where "a \<in> set as" "m \<in> reachable h a" using new(5) by blast
        then show "self \<notin> set (parents h m)"
          using dag_no_back_edge [OF "1.prems"(2) live, of a m] par new(6) m by blast
      qed
      have pb: "parents_before h visited new"
        using parents_before_drop [OF new(7) noback] .
      have "self \<notin> set as" using dag_no_self_edge [OF "1.prems"(2) live] par by simp
      then have "set (parents h self) \<subseteq> visited \<union> set new"
        using vis new(2) par by auto
      then have pb2: "parents_before h visited (new @ [self])"
        using pb by (simp add: parents_before_append)
      have sub: "set (new @ [self]) \<subseteq> reachable h self"
      proof
        fix m assume "m \<in> set (new @ [self])"
        then consider "m = self" | "m \<in> set new" by auto
        then show "m \<in> reachable h self"
        proof cases
          case 1
          then show ?thesis by (simp add: reachable_refl)
        next
          case 2
          then obtain a where "a \<in> set as" "m \<in> reachable h a" using new(5) by blast
          then show ?thesis using reachable_parent [OF live, of a m] par by simp
        qed
      qed
      have "extends h (order, visited) (fst s2 @ [self], snd s2) (reachable h self)"
        unfolding extends_def
      proof (intro exI [of _ "new @ [self]"] conjI)
        show "fst (fst s2 @ [self], snd s2) = fst (order, visited) @ new @ [self]"
          using new(1) by simp
        show "snd (fst s2 @ [self], snd s2) = snd (order, visited) \<union> set (new @ [self])"
          using new(2) by auto
        show "distinct (new @ [self])" using new(3,4) by auto
        show "set (new @ [self]) \<inter> snd (order, visited) = {}" using new(4) fresh by auto
        show "set (new @ [self]) \<subseteq> reachable h self" by (rule sub)
        show "\<forall>m\<in>set (new @ [self]). m < length h" using new(6) live by auto
        show "parents_before h (snd (order, visited)) (new @ [self])" using pb2 by simp
      qed
      then show ?thesis using res new(2) by simp
    qed
  qed
next
  case (2 h s)
  then show ?case by (simp add: extends_def)
next
  case (3 h arg rest s)
  have a: "extends h s (build_topo h arg s) (reachable h arg)"
    and b: "arg \<in> snd (build_topo h arg s)"
    using "3.IH"(1) "3.prems" by auto
  have c: "extends h (build_topo h arg s) (build_topo_args h rest (build_topo h arg s))
             (\<Union>a\<in>set rest. reachable h a)"
    and d: "set rest \<subseteq> snd (build_topo_args h rest (build_topo h arg s))"
    using "3.IH"(2) "3.prems" by auto
  have "extends h s (build_topo_args h rest (build_topo h arg s))
          (reachable h arg \<union> (\<Union>a\<in>set rest. reachable h a))"
    using extends_trans [OF a c] .
  moreover have "arg \<in> snd (build_topo_args h rest (build_topo h arg s))"
    using b c unfolding extends_def by auto
  ultimately show ?case using d by simp
qed

lemma build_topo_last:
  "self \<notin> visited \<Longrightarrow> self < length h \<Longrightarrow>
   \<exists>xs. fst (build_topo h self (order, visited)) = xs @ [self]"
  by (simp add: build_topo.simps split: option.splits prod.splits)

lemma build_topo_order:
  assumes "well_formed h" and "dag h" and "rt < length h"
    and "build_topo h rt ([], {}) = (order, visited)"
  shows "distinct order" and "set order = reachable h rt" and "visited = set order"
    and "parents_before h {} order" and "last order = rt" and "\<forall>m\<in>set order. m < length h"
proof -
  have ext: "extends h ([], {}) (order, visited) (reachable h rt)" and rt: "rt \<in> visited"
    using build_topo_extends(1) [OF assms(1,2), of "([], {})" rt] assms(3,4) by auto
  from ext show d: "distinct order" and v: "visited = set order"
    and pb: "parents_before h {} order" and live: "\<forall>m\<in>set order. m < length h"
    unfolding extends_def by auto
  from ext have sub: "set order \<subseteq> reachable h rt"
    unfolding extends_def by auto
  have "m \<in> set order" if "m \<in> reachable h rt" for m
  proof -
    from that have "(m, rt) \<in> (edges h)\<^sup>*" by (simp add: reachable_def)
    then show ?thesis
    proof (induction rule: converse_rtrancl_induct)
      case base
      then show ?case using rt v by simp
    next
      case (step y z)
      then have "y \<in> set (parents h z)" by (simp add: edges_def)
      then show ?case using parents_before_closed [OF pb step.IH] by auto
    qed
  qed
  with sub show "set order = reachable h rt" by blast
  from build_topo_last [of rt "{}" h "[]"] assms(3,4) show "last order = rt" by auto
qed

lemma ordered_dag:
  assumes "\<forall>n<length h. \<forall>a\<in>set (parents h n). a < n"
  shows "dag h"
proof -
  have "edges h \<subseteq> less_than" using assms by (auto simp: edges_def)
  then show ?thesis
    unfolding dag_def using wf_less_than wf_acyclic acyclic_subset by blast
qed

lemma quicktest_heap_eq:
  "quicktest_heap =
    [\<lparr>tvalue = 5, args = None, local_derivatives = None, derivative = None, name = Some ''x''\<rparr>,
     \<lparr>tvalue = 3, args = None, local_derivatives = None, derivative = None, name = Some ''c''\<rparr>,
     \<lparr>tvalue = 8, args = Some [0, 1], local_derivatives = Some [3, 4], derivative = None, name = None\<rparr>,
     \<lparr>tvalue = 1, args = None, local_derivatives = None, derivative = None, name = None\<rparr>,
     \<lparr>tvalue = 1, args = None, local_derivatives = None, derivative = None, name = None\<rparr>,
     \<lparr>tvalue = 40, args = Some [0, 2], local_derivatives = Some [2, 0], derivative = None, name = None\<rparr>,
     \<lparr>tvalue = 5, args = None, local_derivatives = None, derivative = None, name = None\<rparr>,
     \<lparr>tvalue = 45, args = Some [6, 5], local_derivatives = Some [8, 9], derivative = None, name = None\<rparr>,
     \<lparr>tvalue = 1, args = None, local_derivatives = None, derivative = None, name = None\<rparr>,
     \<lparr>tvalue = 1, args = None, local_derivatives = None, derivative = None, name = None\<rparr>]"
  by (simp add: quicktest_heap_def Tensor_init_def op_add_def op_mul_def set_args_def
      set_local_derivatives_def Let_def)

lemma less_numeral_cases: "(\<forall>n<Suc k. P n) \<longleftrightarrow> P k \<and> (\<forall>n<k. P n)"
  by (auto simp: less_Suc_eq)

lemma quicktest_well_formed: "well_formed quicktest_heap"
  unfolding well_formed_def quicktest_heap_eq
  by (simp add: less_numeral_cases)

lemma quicktest_dag: "dag quicktest_heap"
  apply (rule ordered_dag)
  unfolding quicktest_heap_eq
  by (simp add: less_numeral_cases parents_def)

lemma quicktest_build_topo:
  "build_topo quicktest_heap 7 ([], {}) = ([6, 0, 1, 2, 5, 7], {0, 1, 2, 5, 6, 7})"
  unfolding quicktest_heap_eq
  by (simp add: build_topo.simps insert_commute)

lemma quicktest_length: "length quicktest_heap = 10"
  by (simp add: quicktest_heap_eq)

text \<open>
  C2. On a well-formed acyclic store, \<^verbatim>\<open>build_topo\<close> called on a root with an empty
  list and an empty set returns a list without repetition whose elements are exactly
  the objects reachable from the root, in which every parent of an element stands at a
  smaller index than the element, and whose last element is the root.
\<close>

theorem build_topo_topological_order:
  assumes "well_formed h" and "dag h" and "rt < length h"
  shows "case build_topo h rt ([], {}) of (order, visited) \<Rightarrow>
           distinct order \<and> set order = reachable h rt \<and>
           (\<forall>i<length order. \<forall>a\<in>set (parents h (order ! i)). \<exists>j<i. order ! j = a) \<and>
           last order = rt"
proof -
  obtain order visited where bt: "build_topo h rt ([], {}) = (order, visited)"
    by (cases "build_topo h rt ([], {})")
  note facts = build_topo_order [OF assms bt]
  have "\<exists>j<i. order ! j = a" if "i < length order" "a \<in> set (parents h (order ! i))" for i a
    using parents_before_index [OF facts(4) that] by simp
  then show ?thesis using bt facts(1,2,5) by simp
qed

theorem build_topo_topological_order_witness:
  "well_formed quicktest_heap \<and> dag quicktest_heap \<and> 7 < length quicktest_heap \<and>
   build_topo quicktest_heap 7 ([], {}) = ([6, 0, 1, 2, 5, 7], {0, 1, 2, 5, 6, 7}) \<and>
   reachable quicktest_heap 7 = {0, 1, 2, 5, 6, 7}"
  using build_topo_topological_order [OF quicktest_well_formed quicktest_dag, of 7]
    quicktest_well_formed quicktest_dag
  by (auto simp: quicktest_build_topo quicktest_length)

section \<open>What the passes leave unchanged\<close>

lemma skeleton_set_derivative: "skeleton (set_derivative n d h) = skeleton h"
proof (cases "n < length h")
  case True
  then show ?thesis
    by (simp add: skeleton_def set_derivative_def map_update list_update_same_conv)
next
  case False
  then show ?thesis by (simp add: skeleton_def set_derivative_def list_update_beyond)
qed

lemma skeleton_length: "skeleton h' = skeleton h \<Longrightarrow> length h' = length h"
  unfolding skeleton_def by (rule map_eq_imp_length_eq)

lemma skeleton_field:
  assumes "skeleton h' = skeleton h" and "n < length h"
    and "\<And>t. f (t\<lparr>derivative := None\<rparr>) = f t"
  shows "f (h' ! n) = f (h ! n)"
proof -
  have len: "n < length h'" using skeleton_length [OF assms(1)] assms(2) by simp
  have "f (h' ! n) = f (skeleton h' ! n)"
    using len by (simp add: skeleton_def assms(3))
  also have "\<dots> = f (skeleton h ! n)" by (simp only: assms(1))
  also have "\<dots> = f (h ! n)"
    using assms(2) by (simp add: skeleton_def assms(3))
  finally show ?thesis .
qed

lemma skeleton_fields:
  assumes "skeleton h' = skeleton h" and "n < length h"
  shows "tvalue (h' ! n) = tvalue (h ! n)" and "args (h' ! n) = args (h ! n)"
    and "local_derivatives (h' ! n) = local_derivatives (h ! n)" and "name (h' ! n) = name (h ! n)"
  by (rule skeleton_field [OF assms], simp)+

lemma skeleton_parents:
  "skeleton h' = skeleton h \<Longrightarrow> n < length h \<Longrightarrow> parents h' n = parents h n"
  using skeleton_fields(2) [of h' h n] by (simp add: parents_def)

lemma skeleton_nth:
  assumes "skeleton h' = skeleton h" and "n < length h" and "derivative (h' ! n) = derivative (h ! n)"
  shows "h' ! n = h ! n"
  by (rule Tensor.equality) (simp_all add: skeleton_fields [OF assms(1,2)] assms(3))

lemma build_topo_skeleton:
  "skeleton h' = skeleton h \<Longrightarrow> build_topo h' n s = build_topo h n s"
  "skeleton h' = skeleton h \<Longrightarrow> build_topo_args h' as s = build_topo_args h as s"
proof (induction h n s and h as s rule: build_topo_build_topo_args.induct)
  case (1 h self order visited)
  have len: "length h' = length h" using "1.prems" by (rule skeleton_length)
  show ?case
  proof (cases "self \<in> visited \<or> \<not> self < length h")
    case True
    have "build_topo h' self (order, visited) = (order, visited)"
      using True len by (subst build_topo.simps) auto
    moreover have "build_topo h self (order, visited) = (order, visited)"
      using True by (subst build_topo.simps) auto
    ultimately show ?thesis by simp
  next
    case False
    then have a: "args (h' ! self) = args (h ! self)"
      using skeleton_fields(2) [OF "1.prems"] by blast
    show ?thesis
    proof (cases "args (h ! self)")
      case None
      have "build_topo h' self (order, visited) = (order @ [self], insert self visited)"
        using False len a None by (subst build_topo.simps) simp
      moreover have "build_topo h self (order, visited) = (order @ [self], insert self visited)"
        using False None by (subst build_topo.simps) simp
      ultimately show ?thesis by simp
    next
      case (Some as)
      have ih: "build_topo_args h' as (order, insert self visited)
          = build_topo_args h as (order, insert self visited)"
        using "1.IH" [OF False Some "1.prems"] .
      have "build_topo h' self (order, visited) =
          (case build_topo_args h' as (order, insert self visited) of
             (order', visited') \<Rightarrow> (order' @ [self], visited'))"
        using False len a Some by (subst build_topo.simps) simp
      moreover have "build_topo h self (order, visited) =
          (case build_topo_args h as (order, insert self visited) of
             (order', visited') \<Rightarrow> (order' @ [self], visited'))"
        using False Some by (subst build_topo.simps) simp
      ultimately show ?thesis using ih by simp
    qed
  qed
next
  case (2 h s)
  show ?case by simp
next
  case (3 h arg rest s)
  have "build_topo h' arg s = build_topo h arg s" using "3.IH"(1) "3.prems" .
  moreover have "build_topo_args h' rest (build_topo h arg s)
      = build_topo_args h rest (build_topo h arg s)" using "3.IH"(2) "3.prems" .
  ultimately show ?case by simp
qed

lemma build_topo_sound:
  "\<exists>new. fst (build_topo h n s) = fst s @ new \<and> set new \<subseteq> reachable h n \<and>
     (\<forall>m\<in>set new. m < length h)"
  "\<exists>new. fst (build_topo_args h as s) = fst s @ new \<and>
     set new \<subseteq> (\<Union>a\<in>set as. reachable h a) \<and> (\<forall>m\<in>set new. m < length h)"
proof (induction h n s and h as s rule: build_topo_build_topo_args.induct)
  case (1 h self order visited)
  show ?case
  proof (cases "self \<in> visited \<or> \<not> self < length h")
    case True
    then show ?thesis by (auto simp: build_topo.simps)
  next
    case False
    then have live: "self < length h" by simp
    show ?thesis
    proof (cases "args (h ! self)")
      case None
      then have "build_topo h self (order, visited) = (order @ [self], insert self visited)"
        using False by (simp add: build_topo.simps)
      then show ?thesis using live by (simp add: reachable_refl)
    next
      case (Some as)
      define s2 where "s2 = build_topo_args h as (order, insert self visited)"
      have res: "build_topo h self (order, visited) = (fst s2 @ [self], snd s2)"
        using False Some by (simp add: build_topo.simps s2_def split: prod.splits)
      have par: "parents h self = as" using Some by (simp add: parents_def)
      from "1.IH" [OF False Some] obtain new where new: "fst s2 = order @ new"
          "set new \<subseteq> (\<Union>a\<in>set as. reachable h a)" "\<forall>m\<in>set new. m < length h"
        unfolding s2_def by auto
      have "set new \<subseteq> reachable h self"
        using new(2) reachable_parent [OF live] par by blast
      then have "fst (fst s2 @ [self], snd s2) = fst (order, visited) @ (new @ [self]) \<and>
          set (new @ [self]) \<subseteq> reachable h self \<and> (\<forall>m\<in>set (new @ [self]). m < length h)"
        using new live by (simp add: reachable_refl)
      then show ?thesis unfolding res by blast
    qed
  qed
next
  case (2 h s)
  then show ?case by simp
next
  case (3 h arg rest s)
  from "3.IH"(1) obtain n1 where n1: "fst (build_topo h arg s) = fst s @ n1"
      "set n1 \<subseteq> reachable h arg" "\<forall>m\<in>set n1. m < length h" by blast
  from "3.IH"(2) obtain n2 where n2:
      "fst (build_topo_args h rest (build_topo h arg s)) = fst (build_topo h arg s) @ n2"
      "set n2 \<subseteq> (\<Union>a\<in>set rest. reachable h a)" "\<forall>m\<in>set n2. m < length h" by blast
  have "fst (build_topo_args h (arg # rest) s) = fst s @ (n1 @ n2) \<and>
      set (n1 @ n2) \<subseteq> (\<Union>a\<in>set (arg # rest). reachable h a) \<and>
      (\<forall>m\<in>set (n1 @ n2). m < length h)"
    using n1 n2 by auto
  then show ?case by blast
qed

lemma backward_args_frame:
  "backward_args node zs h = Inr h' \<Longrightarrow>
   skeleton h' = skeleton h \<and> (\<forall>n. n \<notin> fst ` set zs \<longrightarrow> h' ! n = h ! n)"
proof (induction zs arbitrary: h)
  case Nil
  then show ?case by simp
next
  case (Cons z zs)
  obtain arg ld where z: "z = (arg, ld)" by (cases z)
  from Cons.prems z obtain d where d: "derivative (h ! node) = Some d"
    by (auto split: option.splits)
  define h1 where "h1 = (case derivative (h ! arg) of
      None \<Rightarrow> set_derivative arg (Some (d * tvalue (h ! ld))) h
    | Some d' \<Rightarrow> set_derivative arg (Some (d' + d * tvalue (h ! ld))) h)"
  have run: "backward_args node zs h1 = Inr h'"
    using Cons.prems z d by (simp add: h1_def Let_def)
  have sk: "skeleton h1 = skeleton h"
    by (simp add: h1_def skeleton_set_derivative split: option.splits)
  have fr: "n \<noteq> arg \<Longrightarrow> h1 ! n = h ! n" for n
    by (simp add: h1_def set_derivative_def split: option.splits)
  from Cons.IH [OF run] sk fr show ?case using z by auto
qed

lemma backward_nodes_frame:
  "backward_nodes todo h = Inr h' \<Longrightarrow> \<forall>c\<in>set todo. c < length h \<Longrightarrow>
   skeleton h' = skeleton h \<and> (\<forall>n. (\<forall>c\<in>set todo. n \<notin> set (parents h c)) \<longrightarrow> h' ! n = h ! n)"
proof (induction todo arbitrary: h)
  case Nil
  then show ?case by simp
next
  case (Cons node rest)
  show ?case
  proof (cases "args (h ! node)")
    case None
    then have "backward_nodes rest h = Inr h'" using Cons.prems(1) by simp
    from Cons.IH [OF this] Cons.prems(2) show ?thesis by auto
  next
    case (Some as)
    with Cons.prems(1) obtain ls h1 where ls: "local_derivatives (h ! node) = Some ls"
      and inner: "backward_args node (zip as ls) h = Inr h1"
      and rest: "backward_nodes rest h1 = Inr h'"
      by (auto split: option.splits sum.splits)
    have sk1: "skeleton h1 = skeleton h" and fr1: "\<forall>n. n \<notin> fst ` set (zip as ls) \<longrightarrow> h1 ! n = h ! n"
      using backward_args_frame [OF inner] by auto
    have len: "length h1 = length h" using sk1 by (rule skeleton_length)
    have live: "\<forall>c\<in>set rest. c < length h1" using Cons.prems(2) len by simp
    have sk2: "skeleton h' = skeleton h1"
      and fr2: "\<forall>n. (\<forall>c\<in>set rest. n \<notin> set (parents h1 c)) \<longrightarrow> h' ! n = h1 ! n"
      using Cons.IH [OF rest live] by auto
    have par: "parents h node = as" using Some by (simp add: parents_def)
    have "h' ! n = h ! n" if n: "\<forall>c\<in>set (node # rest). n \<notin> set (parents h c)" for n
    proof -
      have "n \<notin> set as" using n par by simp
      then have "n \<notin> fst ` set (zip as ls)" by (auto dest: set_zip_leftD)
      then have a: "h1 ! n = h ! n" using fr1 by simp
      have "\<forall>c\<in>set rest. n \<notin> set (parents h1 c)"
        using n skeleton_parents [OF sk1] Cons.prems(2) by simp
      then show ?thesis using fr2 a by simp
    qed
    then show ?thesis using sk1 sk2 by simp
  qed
qed

lemma clear_nodes_skeleton: "skeleton (clear_nodes xs h) = skeleton h"
  by (induction xs arbitrary: h) (simp_all add: skeleton_set_derivative)

lemma clear_nodes_nth:
  "n < length h \<Longrightarrow>
   clear_nodes xs h ! n = (if n \<in> set xs then (h ! n)\<lparr>derivative := None\<rparr> else h ! n)"
proof (induction xs arbitrary: h)
  case Nil
  then show ?case by simp
next
  case (Cons x xs)
  have "n < length (set_derivative x None h)" using Cons.prems by (simp add: set_derivative_def)
  from Cons.IH [OF this] Cons.prems show ?case
    by (cases "n = x") (auto simp: set_derivative_def)
qed

lemma reachable_step:
  "c \<in> reachable h rt \<Longrightarrow> c < length h \<Longrightarrow> n \<in> set (parents h c) \<Longrightarrow> n \<in> reachable h rt"
  unfolding reachable_def edges_def by (auto intro: converse_rtrancl_into_rtrancl)

lemma backward_frame:
  assumes "backward rt h = Inr h'"
  shows "skeleton h' = skeleton h" and "\<forall>n. n \<notin> reachable h rt \<longrightarrow> h' ! n = h ! n"
proof -
  define h1 where "h1 = set_derivative rt (Some 1) h"
  have sk1: "skeleton h1 = skeleton h" by (simp add: h1_def skeleton_set_derivative)
  obtain order visited where bt: "build_topo h rt ([], {}) = (order, visited)"
    by (cases "build_topo h rt ([], {})")
  have bt1: "build_topo h1 rt ([], {}) = (order, visited)"
    using build_topo_skeleton(1) [OF sk1] bt by simp
  have run: "backward_nodes (rev order) h1 = Inr h'"
    using assms bt1 by (simp add: backward_def h1_def [symmetric])
  have sub: "set order \<subseteq> reachable h rt" and live: "\<forall>m\<in>set order. m < length h"
    using build_topo_sound(1) [of h rt "([], {})"] bt by auto
  have len1: "length h1 = length h" using sk1 by (rule skeleton_length)
  have live1: "\<forall>c\<in>set (rev order). c < length h1" using live len1 by simp
  note fr = backward_nodes_frame [OF run live1]
  show "skeleton h' = skeleton h" using fr sk1 by simp
  show "\<forall>n. n \<notin> reachable h rt \<longrightarrow> h' ! n = h ! n"
  proof (intro allI impI)
    fix n assume n: "n \<notin> reachable h rt"
    then have "n \<noteq> rt" using reachable_refl by metis
    then have a: "h1 ! n = h ! n" by (simp add: h1_def set_derivative_def)
    have "\<forall>c\<in>set (rev order). n \<notin> set (parents h1 c)"
    proof
      fix c assume c: "c \<in> set (rev order)"
      then have "c \<in> reachable h rt" "c < length h" using sub live by auto
      then have "n \<notin> set (parents h c)" using reachable_step n by blast
      then show "n \<notin> set (parents h1 c)"
        using skeleton_parents [OF sk1 \<open>c < length h\<close>] by simp
    qed
    then show "h' ! n = h ! n" using fr a by simp
  qed
qed

lemma clear_derivatives_frame:
  "skeleton (clear_derivatives rt h) = skeleton h"
  "n \<notin> reachable h rt \<Longrightarrow> n < length h \<Longrightarrow> clear_derivatives rt h ! n = h ! n"
proof -
  obtain order visited where bt: "build_topo h rt ([], {}) = (order, visited)"
    by (cases "build_topo h rt ([], {})")
  then have eq: "clear_derivatives rt h = clear_nodes order h"
    by (simp add: clear_derivatives_def)
  show "skeleton (clear_derivatives rt h) = skeleton h"
    by (simp add: eq clear_nodes_skeleton)
  have sub: "set order \<subseteq> reachable h rt"
    using build_topo_sound(1) [of h rt "([], {})"] bt by auto
  show "clear_derivatives rt h ! n = h ! n" if "n \<notin> reachable h rt" "n < length h"
    using that sub by (auto simp: eq clear_nodes_nth)
qed

lemma op_frame:
  "n < length h \<Longrightarrow> snd (op_add a b h) ! n = h ! n"
  "n < length h \<Longrightarrow> snd (op_sub a b h) ! n = h ! n"
  "n < length h \<Longrightarrow> snd (op_mul a b h) ! n = h ! n"
  by (simp_all add: op_add_def op_sub_def op_mul_def Tensor_init_def set_args_def
      set_local_derivatives_def nth_append Let_def)

lemma quicktest_backward: "backward 7 quicktest_heap = Inr quicktest_result"
  unfolding quicktest_heap_eq quicktest_result_def
  by (simp add: backward_def set_derivative_def build_topo.simps Let_def)

lemma quicktest_clear: "clear_derivatives 7 quicktest_result = quicktest_heap"
  unfolding quicktest_heap_eq quicktest_result_def
  by (simp add: clear_derivatives_def set_derivative_def build_topo.simps Let_def)

lemma quicktest_reachable: "reachable quicktest_heap 7 = {0, 1, 2, 5, 6, 7}"
  using build_topo_order(2) [OF quicktest_well_formed quicktest_dag _ quicktest_build_topo]
  by (simp add: quicktest_length insert_commute)

text \<open>
  C9. The three operations leave every object of the store they are called in as it
  was, the operands among them. A \<^verbatim>\<open>backward\<close> that returns, and \<^verbatim>\<open>clear_derivatives\<close>,
  keep the number of objects and the \<^verbatim>\<open>value\<close>, \<^verbatim>\<open>args\<close>, \<^verbatim>\<open>local_derivatives\<close> and
  \<^verbatim>\<open>name\<close> of every object, and leave an object that is not reachable from the root
  unchanged in all its attributes.
\<close>

theorem operations_frame:
  "(\<forall>n<length h. snd (op_add a b h) ! n = h ! n \<and> snd (op_sub a b h) ! n = h ! n \<and>
       snd (op_mul a b h) ! n = h ! n) \<and>
   (\<forall>h'. backward rt h = Inr h' \<longrightarrow>
       length h' = length h \<and>
       (\<forall>n<length h. tvalue (h' ! n) = tvalue (h ! n) \<and> args (h' ! n) = args (h ! n) \<and>
           local_derivatives (h' ! n) = local_derivatives (h ! n) \<and> name (h' ! n) = name (h ! n) \<and>
           (n \<notin> reachable h rt \<longrightarrow> h' ! n = h ! n))) \<and>
   length (clear_derivatives rt h) = length h \<and>
   (\<forall>n<length h. tvalue (clear_derivatives rt h ! n) = tvalue (h ! n) \<and>
       args (clear_derivatives rt h ! n) = args (h ! n) \<and>
       local_derivatives (clear_derivatives rt h ! n) = local_derivatives (h ! n) \<and>
       name (clear_derivatives rt h ! n) = name (h ! n) \<and>
       (n \<notin> reachable h rt \<longrightarrow> clear_derivatives rt h ! n = h ! n))"
proof (intro conjI allI impI)
  fix n assume "n < length h"
  then show "snd (op_add a b h) ! n = h ! n" "snd (op_sub a b h) ! n = h ! n"
    "snd (op_mul a b h) ! n = h ! n"
    by (rule op_frame)+
next
  fix h' assume b: "backward rt h = Inr h'"
  note sk = backward_frame(1) [OF b]
  show "length h' = length h" using sk by (rule skeleton_length)
  fix n assume n: "n < length h"
  show "tvalue (h' ! n) = tvalue (h ! n)" "args (h' ! n) = args (h ! n)"
    "local_derivatives (h' ! n) = local_derivatives (h ! n)" "name (h' ! n) = name (h ! n)"
    by (rule skeleton_fields [OF sk n])+
  assume "n \<notin> reachable h rt"
  then show "h' ! n = h ! n" using backward_frame(2) [OF b] by simp
next
  note sk = clear_derivatives_frame(1) [of rt h]
  show "length (clear_derivatives rt h) = length h" using sk by (rule skeleton_length)
  fix n assume n: "n < length h"
  show "tvalue (clear_derivatives rt h ! n) = tvalue (h ! n)"
    "args (clear_derivatives rt h ! n) = args (h ! n)"
    "local_derivatives (clear_derivatives rt h ! n) = local_derivatives (h ! n)"
    "name (clear_derivatives rt h ! n) = name (h ! n)"
    by (rule skeleton_fields [OF sk n])+
  assume "n \<notin> reachable h rt"
  then show "clear_derivatives rt h ! n = h ! n" using clear_derivatives_frame(2) n by simp
qed

theorem operations_frame_witness:
  "backward 7 quicktest_heap = Inr quicktest_result \<and>
   length quicktest_result = length quicktest_heap \<and>
   3 < length quicktest_heap \<and> 3 \<notin> reachable quicktest_heap 7 \<and>
   quicktest_result ! 3 = quicktest_heap ! 3 \<and>
   args (quicktest_result ! 7) = args (quicktest_heap ! 7) \<and>
   snd (op_mul 0 1 quicktest_heap) ! 0 = quicktest_heap ! 0"
  using operations_frame [of quicktest_heap 0 1 7] quicktest_backward
  by (simp add: quicktest_reachable quicktest_length)

section \<open>The backward pass returns\<close>

lemma backward_args_Cons:
  "backward_args node ((arg, ld) # rest) h =
     (case derivative (h ! node) of
        None \<Rightarrow> Inl TypeError
      | Some d \<Rightarrow> backward_args node rest
          (set_derivative arg (Some (adjoint h arg + d * tvalue (h ! ld))) h))"
  by (simp add: adjoint_def Let_def split: option.splits)

lemma set_derivative_nth:
  "set_derivative a d h ! n =
     (if n = a \<and> a < length h then (h ! a)\<lparr>derivative := d\<rparr> else h ! n)"
proof (cases "a < length h")
  case True
  then show ?thesis by (simp add: set_derivative_def nth_list_update)
next
  case False
  then show ?thesis by (simp add: set_derivative_def list_update_beyond)
qed

lemma set_derivative_length: "length (set_derivative a d h) = length h"
  by (simp add: set_derivative_def)

lemma backward_args_present:
  assumes "derivative (h ! node) \<noteq> None"
  shows "\<exists>h1. backward_args node zs h = Inr h1 \<and>
           (\<forall>m. derivative (h ! m) \<noteq> None \<longrightarrow> derivative (h1 ! m) \<noteq> None) \<and>
           (\<forall>a\<in>fst ` set zs. a < length h \<longrightarrow> derivative (h1 ! a) \<noteq> None)"
  using assms
proof (induction zs arbitrary: h)
  case Nil
  then show ?case by simp
next
  case (Cons z zs)
  obtain arg ld where z: "z = (arg, ld)" by (cases z)
  from Cons.prems obtain d where d: "derivative (h ! node) = Some d" by auto
  define h2 where "h2 = set_derivative arg (Some (adjoint h arg + d * tvalue (h ! ld))) h"
  have step: "backward_args node (z # zs) h = backward_args node zs h2"
    unfolding z backward_args_Cons h2_def using d by simp
  have keep: "derivative (h2 ! m) \<noteq> None" if "derivative (h ! m) \<noteq> None" for m
    using that by (simp add: h2_def set_derivative_nth)
  have new: "derivative (h2 ! arg) \<noteq> None" if "arg < length h"
    using that by (simp add: h2_def set_derivative_nth)
  have len: "length h2 = length h" by (simp add: h2_def set_derivative_length)
  from Cons.IH [OF keep [OF Cons.prems]] obtain h1 where h1: "backward_args node zs h2 = Inr h1"
      "\<forall>m. derivative (h2 ! m) \<noteq> None \<longrightarrow> derivative (h1 ! m) \<noteq> None"
      "\<forall>a\<in>fst ` set zs. a < length h2 \<longrightarrow> derivative (h1 ! a) \<noteq> None"
    by blast
  have "\<forall>m. derivative (h ! m) \<noteq> None \<longrightarrow> derivative (h1 ! m) \<noteq> None"
    using keep h1(2) by blast
  moreover have "\<forall>a\<in>fst ` set (z # zs). a < length h \<longrightarrow> derivative (h1 ! a) \<noteq> None"
    using new h1(2,3) len z by auto
  ultimately show ?case using step h1(1) by simp
qed

lemma ready_mono: "ready h D xs \<Longrightarrow> D \<subseteq> D' \<Longrightarrow> ready h D' xs"
proof (induction xs arbitrary: D D')
  case Nil
  then show ?case by simp
next
  case (Cons x xs)
  from Cons.prems have "ready h (D \<union> set (parents h x)) xs" "x \<in> D'" by auto
  moreover have "D \<union> set (parents h x) \<subseteq> D' \<union> set (parents h x)" using Cons.prems(2) by auto
  ultimately show ?case using Cons.IH by simp
qed

lemma backward_nodes_present:
  assumes "well_formed h0" and "skeleton h = skeleton h0"
    and "\<forall>c\<in>set todo. c < length h0"
    and "ready h0 {m. derivative (h ! m) \<noteq> None} todo"
  shows "\<exists>h'. backward_nodes todo h = Inr h' \<and>
           (\<forall>m. derivative (h ! m) \<noteq> None \<longrightarrow> derivative (h' ! m) \<noteq> None) \<and>
           (\<forall>m\<in>set todo. derivative (h' ! m) \<noteq> None)"
  using assms(2-)
proof (induction todo arbitrary: h)
  case Nil
  then show ?case by simp
next
  case (Cons node rest)
  have live: "node < length h0" using Cons.prems(2) by simp
  have here: "derivative (h ! node) \<noteq> None" using Cons.prems(3) by simp
  have rdy: "ready h0 ({m. derivative (h ! m) \<noteq> None} \<union> set (parents h0 node)) rest"
    using Cons.prems(3) by simp
  have live_rest: "\<forall>c\<in>set rest. c < length h0" using Cons.prems(2) by simp
  have a: "args (h ! node) = args (h0 ! node)"
    and l: "local_derivatives (h ! node) = local_derivatives (h0 ! node)"
    using skeleton_fields(2,3) [OF Cons.prems(1) live] by auto
  show ?case
  proof (cases "args (h0 ! node)")
    case None
    then have "parents h0 node = []" by (simp add: parents_def)
    then have "ready h0 {m. derivative (h ! m) \<noteq> None} rest" using rdy by simp
    from Cons.IH [OF Cons.prems(1) live_rest this] obtain h' where
        h': "backward_nodes rest h = Inr h'"
        "\<forall>m. derivative (h ! m) \<noteq> None \<longrightarrow> derivative (h' ! m) \<noteq> None"
        "\<forall>m\<in>set rest. derivative (h' ! m) \<noteq> None" by blast
    have "backward_nodes (node # rest) h = Inr h'" using None a h'(1) by simp
    then show ?thesis using h'(2,3) here by auto
  next
    case (Some as)
    from well_formed_node [OF assms(1) live Some] obtain ls where
        ls: "local_derivatives (h0 ! node) = Some ls" "length ls = length as"
        and live_as: "\<forall>a\<in>set as. a < length h0" by blast
    from backward_args_present [OF here, of "zip as ls"] obtain h1 where
        h1: "backward_args node (zip as ls) h = Inr h1"
        "\<forall>m. derivative (h ! m) \<noteq> None \<longrightarrow> derivative (h1 ! m) \<noteq> None"
        "\<forall>a\<in>fst ` set (zip as ls). a < length h \<longrightarrow> derivative (h1 ! a) \<noteq> None" by blast
    have sk1: "skeleton h1 = skeleton h0"
      using backward_args_frame [OF h1(1)] Cons.prems(1) by simp
    have len: "length h = length h0" using Cons.prems(1) by (rule skeleton_length)
    have "fst ` set (zip as ls) = set as"
      using ls(2) by (metis map_fst_zip set_map)
    then have got: "\<forall>a\<in>set as. derivative (h1 ! a) \<noteq> None"
      using h1(3) live_as len by simp
    have par: "parents h0 node = as" using Some by (simp add: parents_def)
    have sub: "{m. derivative (h ! m) \<noteq> None} \<union> set (parents h0 node)
        \<subseteq> {m. derivative (h1 ! m) \<noteq> None}"
      using h1(2) got par by auto
    have "ready h0 {m. derivative (h1 ! m) \<noteq> None} rest"
      using ready_mono [OF rdy sub] .
    from Cons.IH [OF sk1 live_rest this] obtain h' where
        h': "backward_nodes rest h1 = Inr h'"
        "\<forall>m. derivative (h1 ! m) \<noteq> None \<longrightarrow> derivative (h' ! m) \<noteq> None"
        "\<forall>m\<in>set rest. derivative (h' ! m) \<noteq> None" by blast
    have "backward_nodes (node # rest) h = Inr h'"
      using Some a l ls(1) h1(1) h'(1) by simp
    then show ?thesis using h1(2) h'(2,3) here by auto
  qed
qed

lemma covered_snoc:
  "covered h D (xs @ [n]) \<longleftrightarrow> n \<in> D \<and> covered h (D \<union> set (parents h n)) xs"
  by (induction xs) auto

lemma covered_ready: "covered h D xs \<Longrightarrow> ready h D (rev xs)"
proof (induction xs arbitrary: D rule: rev_induct)
  case Nil
  then show ?case by simp
next
  case (snoc n xs)
  then show ?case by (simp add: covered_snoc)
qed

lemma parents_before_prefix:
  assumes "parents_before h {} (pre @ m # xs)" and "distinct (pre @ m # xs)"
    and "c \<in> set (pre @ [m])"
  shows "m \<notin> set (parents h c)"
proof -
  have pre: "parents_before h {} pre" and m: "set (parents h m) \<subseteq> set pre"
    using assms(1) by (simp_all add: parents_before_append)
  have "m \<notin> set pre" using assms(2) by simp
  show ?thesis
  proof (cases "c = m")
    case True
    then show ?thesis using m \<open>m \<notin> set pre\<close> by auto
  next
    case False
    then have "c \<in> set pre" using assms(3) by simp
    then have "set (parents h c) \<subseteq> set pre" using parents_before_closed [OF pre] by simp
    then show ?thesis using \<open>m \<notin> set pre\<close> by auto
  qed
qed

lemma order_covered:
  assumes "parents_before h {} (pre @ xs)" and "distinct (pre @ xs)"
    and "\<forall>m\<in>set xs. m \<in> D \<or> (\<exists>c\<in>set (pre @ xs). m \<in> set (parents h c))"
  shows "covered h D xs"
  using assms
proof (induction xs arbitrary: pre)
  case Nil
  then show ?case by simp
next
  case (Cons m xs)
  have "m \<in> D \<or> (\<exists>c\<in>set xs. m \<in> set (parents h c))"
  proof (cases "m \<in> D")
    case True
    then show ?thesis by simp
  next
    case False
    then obtain c where c: "c \<in> set (pre @ m # xs)" "m \<in> set (parents h c)"
      using Cons.prems(3) by auto
    have "c \<notin> set (pre @ [m])"
      using parents_before_prefix [OF Cons.prems(1,2)] c(2) by blast
    then have "c \<in> set xs" using c(1) by auto
    then show ?thesis using c(2) by blast
  qed
  moreover have "covered h D xs"
  proof (rule Cons.IH [of "pre @ [m]"])
    show "parents_before h {} ((pre @ [m]) @ xs)" using Cons.prems(1) by simp
    show "distinct ((pre @ [m]) @ xs)" using Cons.prems(2) by simp
    show "\<forall>m'\<in>set xs. m' \<in> D \<or> (\<exists>c\<in>set ((pre @ [m]) @ xs). m' \<in> set (parents h c))"
      using Cons.prems(3) by simp
  qed
  ultimately show ?case by simp
qed

lemma reachable_child:
  assumes "m \<in> reachable h rt" and "m \<noteq> rt"
  shows "\<exists>c\<in>reachable h rt. c < length h \<and> m \<in> set (parents h c)"
proof -
  from assms have "(m, rt) \<in> (edges h)\<^sup>*" by (simp add: reachable_def)
  then obtain c where "(m, c) \<in> edges h" "(c, rt) \<in> (edges h)\<^sup>*"
    using assms(2) by (meson converse_rtranclE)
  then show ?thesis by (auto simp: reachable_def edges_def)
qed

lemma order_ready:
  assumes "well_formed h" and "dag h" and "rt < length h"
    and "build_topo h rt ([], {}) = (order, visited)" and "rt \<in> D"
  shows "ready h D (rev order)"
proof -
  note facts = build_topo_order [OF assms(1-4)]
  have "\<forall>m\<in>set order. m \<in> D \<or> (\<exists>c\<in>set ([] @ order). m \<in> set (parents h c))"
    using reachable_child [of _ h rt] facts(2) assms(5) by auto
  then have "covered h D order"
    using order_covered [of h "[]" order D] facts(1,4) by simp
  then show ?thesis by (rule covered_ready)
qed

lemma backward_succeeds:
  assumes "well_formed h" and "dag h" and "rt < length h"
    and "build_topo h rt ([], {}) = (order, visited)"
  shows "\<exists>h'. backward rt h = Inr h' \<and>
           backward_nodes (rev order) (set_derivative rt (Some 1) h) = Inr h' \<and>
           (\<forall>m\<in>reachable h rt. derivative (h' ! m) \<noteq> None)"
proof -
  define h1 where "h1 = set_derivative rt (Some 1) h"
  have sk1: "skeleton h1 = skeleton h" by (simp add: h1_def skeleton_set_derivative)
  have bt1: "build_topo h1 rt ([], {}) = (order, visited)"
    using build_topo_skeleton(1) [OF sk1] assms(4) by simp
  note facts = build_topo_order [OF assms]
  have "derivative (h1 ! rt) \<noteq> None" using assms(3) by (simp add: h1_def set_derivative_nth)
  then have "ready h {m. derivative (h1 ! m) \<noteq> None} (rev order)"
    using order_ready [OF assms] by simp
  moreover have "\<forall>c\<in>set (rev order). c < length h" using facts(6) by simp
  ultimately obtain h' where h': "backward_nodes (rev order) h1 = Inr h'"
      "\<forall>m\<in>set (rev order). derivative (h' ! m) \<noteq> None"
    using backward_nodes_present [OF assms(1) sk1] by blast
  have "backward rt h = Inr h'"
    using h'(1) bt1 by (simp add: backward_def h1_def [symmetric])
  then show ?thesis using h' facts(2) by (simp add: h1_def)
qed

text \<open>
  C7. On a well-formed acyclic store \<^verbatim>\<open>backward\<close> returns: it never reaches the
  \<^verbatim>\<open>TypeError\<close> of \<^verbatim>\<open>node.derivative * local_derivative.value\<close> with an absent
  \<^verbatim>\<open>node.derivative\<close>, so every object with \<^verbatim>\<open>args\<close> that the loop processes has its
  derivative present; afterwards every reachable object holds a derivative. The list
  the loop runs over has no repetition, so each object is processed, and its
  contributions pushed, once.
\<close>

theorem backward_derivative_present:
  assumes "well_formed h" and "dag h" and "rt < length h"
  shows "(\<exists>h'. backward rt h = Inr h' \<and> (\<forall>m\<in>reachable h rt. derivative (h' ! m) \<noteq> None)) \<and>
         distinct (rev (fst (build_topo (set_derivative rt (Some 1) h) rt ([], {}))))"
proof
  obtain order visited where bt: "build_topo h rt ([], {}) = (order, visited)"
    by (cases "build_topo h rt ([], {})")
  show "\<exists>h'. backward rt h = Inr h' \<and> (\<forall>m\<in>reachable h rt. derivative (h' ! m) \<noteq> None)"
    using backward_succeeds [OF assms bt] by blast
  have sk: "skeleton (set_derivative rt (Some 1) h) = skeleton h"
    by (rule skeleton_set_derivative)
  have "build_topo (set_derivative rt (Some 1) h) rt ([], {}) = build_topo h rt ([], {})"
    by (rule build_topo_skeleton(1) [OF sk])
  then have "fst (build_topo (set_derivative rt (Some 1) h) rt ([], {})) = order"
    by (simp only: bt fst_conv)
  moreover have "distinct order" by (rule build_topo_order(1) [OF assms bt])
  ultimately show "distinct (rev (fst (build_topo (set_derivative rt (Some 1) h) rt ([], {}))))"
    by (simp only: distinct_rev)
qed

theorem backward_derivative_present_witness:
  "well_formed quicktest_heap \<and> dag quicktest_heap \<and> 7 < length quicktest_heap \<and>
   backward 7 quicktest_heap = Inr quicktest_result \<and>
   reachable quicktest_heap 7 = {0, 1, 2, 5, 6, 7} \<and>
   map (\<lambda>m. derivative (quicktest_result ! m)) [0, 1, 2, 5, 6, 7] =
     [Some 13, Some 5, Some 5, Some 1, Some 1, Some 1]"
  using backward_derivative_present [OF quicktest_well_formed quicktest_dag, of 7]
    quicktest_well_formed quicktest_dag quicktest_backward quicktest_reachable
  by (auto simp: quicktest_length quicktest_result_def)

section \<open>Clearing and running again\<close>

lemma clear_derivatives_nth:
  assumes "well_formed h" and "dag h" and "rt < length h" and "n < length h"
  shows "clear_derivatives rt h ! n =
           (if n \<in> reachable h rt then (h ! n)\<lparr>derivative := None\<rparr> else h ! n)"
proof -
  obtain order visited where bt: "build_topo h rt ([], {}) = (order, visited)"
    by (cases "build_topo h rt ([], {})")
  have "set order = reachable h rt" using build_topo_order(2) [OF assms(1-3) bt] .
  then show ?thesis using bt assms(4) by (simp add: clear_derivatives_def clear_nodes_nth)
qed

lemma skeleton_eq_nth:
  assumes "skeleton h' = skeleton h" and "n < length h"
  shows "(h' ! n)\<lparr>derivative := None\<rparr> = (h ! n)\<lparr>derivative := None\<rparr>"
proof -
  have "n < length h'" using skeleton_length [OF assms(1)] assms(2) by simp
  then have "(h' ! n)\<lparr>derivative := None\<rparr> = skeleton h' ! n" by (simp add: skeleton_def)
  also have "\<dots> = skeleton h ! n" by (simp only: assms(1))
  also have "\<dots> = (h ! n)\<lparr>derivative := None\<rparr>" using assms(2) by (simp add: skeleton_def)
  finally show ?thesis .
qed

lemma skeleton_well_formed:
  assumes "skeleton h' = skeleton h" and "well_formed h"
  shows "well_formed h'"
  unfolding well_formed_def
proof (intro allI impI)
  fix n assume "n < length h'"
  then have n: "n < length h" using skeleton_length [OF assms(1)] by simp
  have "case args (h ! n) of None \<Rightarrow> True
        | Some as \<Rightarrow> (\<forall>a\<in>set as. a < length h) \<and>
            (case local_derivatives (h ! n) of None \<Rightarrow> False
             | Some ls \<Rightarrow> length ls = length as \<and> (\<forall>l\<in>set ls. l < length h))"
    using assms(2) n unfolding well_formed_def by blast
  then show "case args (h' ! n) of None \<Rightarrow> True
        | Some as \<Rightarrow> (\<forall>a\<in>set as. a < length h') \<and>
            (case local_derivatives (h' ! n) of None \<Rightarrow> False
             | Some ls \<Rightarrow> length ls = length as \<and> (\<forall>l\<in>set ls. l < length h'))"
    using skeleton_fields(2,3) [OF assms(1) n] skeleton_length [OF assms(1)]
    by (auto split: option.splits)
qed

lemma skeleton_edges:
  assumes "skeleton h' = skeleton h"
  shows "edges h' = edges h"
  unfolding edges_def
  using skeleton_length [OF assms] skeleton_parents [OF assms] by auto

lemma skeleton_reachable: "skeleton h' = skeleton h \<Longrightarrow> reachable h' rt = reachable h rt"
  using skeleton_edges [of h' h] by (simp add: reachable_def)

lemma skeleton_dag: "skeleton h' = skeleton h \<Longrightarrow> dag h' = dag h"
  using skeleton_edges [of h' h] by (simp add: dag_def)

lemma quicktest_fresh: "\<forall>m\<in>reachable quicktest_heap 7. derivative (quicktest_heap ! m) = None"
  unfolding quicktest_reachable by (simp add: quicktest_heap_eq)

lemma quicktest_fresh_list:
  "map (\<lambda>m. derivative (quicktest_heap ! m)) [0, 1, 2, 5, 6, 7] =
     [None, None, None, None, None, None]"
  by (simp add: quicktest_heap_eq)

text \<open>
  C3. On a well-formed acyclic store, after \<^verbatim>\<open>backward(root)\<close> has returned the store
  \<open>h1\<close>, \<^verbatim>\<open>clear_derivatives(root)\<close> leaves every reachable object with the derivative
  \<^verbatim>\<open>None\<close>, and \<^verbatim>\<open>backward(root)\<close> on the cleared store is the same as \<^verbatim>\<open>backward(root)\<close>
  on the cleared initial store: nothing of the first pass is left. When the first pass
  started from a graph as built, with the derivatives of the reachable objects absent,
  the second pass returns the very store \<open>h1\<close> of the first, so every object has exactly
  the derivative it had after the first pass.
\<close>

theorem clear_then_backward:
  assumes "well_formed h" and "dag h" and "rt < length h"
  shows "\<exists>h1. backward rt h = Inr h1 \<and>
           (\<forall>m\<in>reachable h rt. derivative (clear_derivatives rt h1 ! m) = None) \<and>
           backward rt (clear_derivatives rt h1) = backward rt (clear_derivatives rt h) \<and>
           ((\<forall>m\<in>reachable h rt. derivative (h ! m) = None) \<longrightarrow>
              backward rt (clear_derivatives rt h1) = Inr h1)"
proof -
  obtain order visited where bt: "build_topo h rt ([], {}) = (order, visited)"
    by (cases "build_topo h rt ([], {})")
  from backward_succeeds [OF assms bt] obtain h1 where h1: "backward rt h = Inr h1" by blast
  note sk = backward_frame(1) [OF h1] and fr = backward_frame(2) [OF h1]
  have len: "length h1 = length h" using sk by (rule skeleton_length)
  have wf1: "well_formed h1" using skeleton_well_formed [OF sk assms(1)] .
  have dag1: "dag h1" using skeleton_dag [OF sk] assms(2) by simp
  have re1: "reachable h1 rt = reachable h rt" using sk by (rule skeleton_reachable)
  have live: "m < length h" if "m \<in> reachable h rt" for m
    using build_topo_order(2,6) [OF assms bt] that by auto
  have nth1: "clear_derivatives rt h1 ! n =
      (if n \<in> reachable h rt then (h1 ! n)\<lparr>derivative := None\<rparr> else h1 ! n)" if "n < length h" for n
    using clear_derivatives_nth [OF wf1 dag1, of rt n] assms(3) that len re1 by simp
  have c1: "\<forall>m\<in>reachable h rt. derivative (clear_derivatives rt h1 ! m) = None"
    using nth1 live by simp
  have eq: "clear_derivatives rt h1 = clear_derivatives rt h"
  proof (rule nth_equalityI)
    show "length (clear_derivatives rt h1) = length (clear_derivatives rt h)"
      using skeleton_length [OF clear_derivatives_frame(1)] len by simp
    fix n assume "n < length (clear_derivatives rt h1)"
    then have n: "n < length h"
      using skeleton_length [OF clear_derivatives_frame(1), of rt h1] len by simp
    show "clear_derivatives rt h1 ! n = clear_derivatives rt h ! n"
      using nth1 [OF n] clear_derivatives_nth [OF assms n] skeleton_eq_nth [OF sk n] fr
      by simp
  qed
  have c3: "backward rt (clear_derivatives rt h1) = Inr h1"
    if fresh: "\<forall>m\<in>reachable h rt. derivative (h ! m) = None"
  proof -
    have "clear_derivatives rt h = h"
    proof (rule nth_equalityI)
      show "length (clear_derivatives rt h) = length h"
        using skeleton_length [OF clear_derivatives_frame(1)] .
      fix n assume "n < length (clear_derivatives rt h)"
      then have n: "n < length h"
        using skeleton_length [OF clear_derivatives_frame(1), of rt h] by simp
      show "clear_derivatives rt h ! n = h ! n"
      proof (cases "n \<in> reachable h rt")
        case True
        then have "derivative (h ! n) = None" using fresh by simp
        then have "(h ! n)\<lparr>derivative := None\<rparr> = h ! n"
          by (cases "h ! n") simp
        then show ?thesis using clear_derivatives_nth [OF assms n] True by simp
      next
        case False
        then show ?thesis using clear_derivatives_nth [OF assms n] by simp
      qed
    qed
    then show ?thesis using eq h1 by simp
  qed
  show ?thesis using h1 c1 eq c3 by auto
qed

theorem clear_then_backward_witness:
  "well_formed quicktest_heap \<and> dag quicktest_heap \<and> 7 < length quicktest_heap \<and>
   reachable quicktest_heap 7 = {0, 1, 2, 5, 6, 7} \<and>
   map (\<lambda>m. derivative (quicktest_heap ! m)) [0, 1, 2, 5, 6, 7] =
     [None, None, None, None, None, None] \<and>
   backward 7 quicktest_heap = Inr quicktest_result \<and>
   backward 7 (clear_derivatives 7 quicktest_result) = Inr quicktest_result"
  using clear_then_backward [OF quicktest_well_formed quicktest_dag, of 7]
    quicktest_well_formed quicktest_dag quicktest_fresh quicktest_backward
    quicktest_reachable quicktest_fresh_list
  by (auto simp: quicktest_length)

section \<open>The product rule\<close>

lemma op_mul_eq:
  "op_mul a b h =
     (length h, h @ [\<lparr>tvalue = tvalue (h ! a) * tvalue (h ! b), args = Some [a, b],
        local_derivatives = Some [b, a], derivative = None, name = None\<rparr>])"
  by (simp add: op_mul_def Tensor_init_def set_args_def set_local_derivatives_def Let_def)

text \<open>
  C4. For two distinct leaves \<open>a\<close> and \<open>b\<close> of the store with absent derivatives and
  \<open>y = _mul(a, b)\<close>, \<^verbatim>\<open>backward\<close> on \<open>y\<close> returns, with \<open>derivative(y) = 1\<close>,
  \<open>derivative(a) = derivative(y) * b.value\<close> and \<open>derivative(b) = derivative(y) * a.value\<close>.
\<close>

theorem product_rule:
  assumes "a < length h" and "b < length h" and "a \<noteq> b"
    and "args (h ! a) = None" and "args (h ! b) = None"
    and "derivative (h ! a) = None" and "derivative (h ! b) = None"
  shows "case op_mul a b h of (y, h1) \<Rightarrow>
           (\<exists>h2 dy. backward y h1 = Inr h2 \<and> derivative (h2 ! y) = Some dy \<and> dy = 1 \<and>
              derivative (h2 ! a) = Some (dy * tvalue (h2 ! b)) \<and>
              derivative (h2 ! b) = Some (dy * tvalue (h2 ! a)))"
proof -
  define y where "y = length h"
  define node where "node = \<lparr>tvalue = tvalue (h ! a) * tvalue (h ! b), args = Some [a, b],
        local_derivatives = Some [b, a], derivative = Some (1::real), name = None\<rparr>"
  define h1 where "h1 = h @ [node\<lparr>derivative := None\<rparr>]"
  define hs where "hs = h @ [node]"
  have mul: "op_mul a b h = (y, h1)" by (simp add: op_mul_eq y_def h1_def node_def)
  have seed: "set_derivative y (Some 1) h1 = hs"
    by (simp add: set_derivative_def y_def h1_def hs_def node_def)
  have ay: "a \<noteq> y" "b \<noteq> y" "a < length hs" "b < length hs" "y < length hs"
    using assms(1,2) by (simp_all add: y_def hs_def)
  have nth: "hs ! a = h ! a" "hs ! b = h ! b" "hs ! y = node"
    using assms(1,2) by (simp_all add: hs_def y_def nth_append)
  have "build_topo hs a ([], {y}) = ([a], {a, y})"
    using ay nth assms(4) by (simp add: build_topo.simps)
  moreover have "build_topo hs b ([a], {a, y}) = ([a, b], {b, a, y})"
    using ay nth assms(3,5) by (simp add: build_topo.simps)
  ultimately have order: "build_topo hs y ([], {}) = ([a, b, y], {b, a, y})"
    using ay nth by (simp add: build_topo.simps node_def)
  define ha where "ha = set_derivative a (Some (tvalue (h ! b))) hs"
  define hb where "hb = set_derivative b (Some (tvalue (h ! a))) ha"
  have ha: "ha ! y = node" "ha ! a = (h ! a)\<lparr>derivative := Some (tvalue (h ! b))\<rparr>"
      "ha ! b = h ! b" "length ha = length hs"
    using ay nth assms(3) by (simp_all add: ha_def set_derivative_def)
  have hb: "hb ! y = node" "hb ! a = (h ! a)\<lparr>derivative := Some (tvalue (h ! b))\<rparr>"
      "hb ! b = (h ! b)\<lparr>derivative := Some (tvalue (h ! a))\<rparr>"
    using ay ha assms(3) by (simp_all add: hb_def set_derivative_def)
  have inner: "backward_args y [(a, b), (b, a)] hs = Inr hb"
    using nth ha assms(6,7) by (simp add: node_def ha_def [symmetric] hb_def [symmetric])
  have "backward_nodes [y, b, a] hs = Inr hb"
    using nth inner hb assms(4,5) by (simp add: node_def)
  then have "backward y h1 = Inr hb"
    by (simp add: backward_def seed order)
  moreover have "derivative (hb ! y) = Some 1" "derivative (hb ! a) = Some (1 * tvalue (hb ! b))"
    "derivative (hb ! b) = Some (1 * tvalue (hb ! a))"
    by (simp_all add: hb node_def)
  ultimately show ?thesis unfolding mul by simp
qed

theorem product_rule_witness:
  "0 < length two_leaves \<and> 1 < length two_leaves \<and> (0::nat) \<noteq> 1 \<and>
   args (two_leaves ! 0) = None \<and> args (two_leaves ! 1) = None \<and>
   derivative (two_leaves ! 0) = None \<and> derivative (two_leaves ! 1) = None \<and>
   op_mul 0 1 two_leaves =
     (2, two_leaves @ [\<lparr>tvalue = 6, args = Some [0, 1], local_derivatives = Some [1, 0],
                         derivative = None, name = None\<rparr>]) \<and>
   backward 2 (snd (op_mul 0 1 two_leaves)) =
     Inr [\<lparr>tvalue = 2, args = None, local_derivatives = None, derivative = Some 3, name = None\<rparr>,
          \<lparr>tvalue = 3, args = None, local_derivatives = None, derivative = Some 2, name = None\<rparr>,
          \<lparr>tvalue = 6, args = Some [0, 1], local_derivatives = Some [1, 0],
             derivative = Some 1, name = None\<rparr>]"
  using product_rule [of 0 two_leaves 1]
  by (simp add: two_leaves_eq op_mul_eq backward_def set_derivative_def build_topo.simps)

section \<open>What the backward pass computes\<close>

text \<open>
  The loop keeps the sum of \<open>derivative(n) * F n\<close> over the objects still to be
  processed, for every \<open>F\<close> that is 1 at an object \<open>m\<close> and, at every other object, the
  sum of the local derivative values times \<open>F\<close> at the parents.
\<close>

lemma sum_list_zero: "\<forall>x\<in>set xs. f x = (0::real) \<Longrightarrow> sum_list (map f xs) = 0"
  by (induction xs) simp_all

lemma sum_list_delta:
  "distinct xs \<Longrightarrow>
   (\<Sum>n\<leftarrow>xs. (if a = n then w else 0) * F n) = (if a \<in> set xs then w * F a else (0::real))"
  by (induction xs) auto

lemma sum_list_swap:
  assumes "distinct rest" and "fst ` set ws \<subseteq> set rest"
  shows "(\<Sum>n\<leftarrow>rest. (\<Sum>(a, w)\<leftarrow>ws. if a = n then w else 0) * F n)
           = (\<Sum>(a, w)\<leftarrow>ws. w * F a :: real)"
  using assms(2)
proof (induction ws)
  case Nil
  then show ?case by (simp add: sum_list_zero)
next
  case (Cons z ws)
  obtain a w where z: "z = (a, w)" by (cases z)
  have a: "a \<in> set rest" using Cons.prems z by simp
  have "(\<Sum>n\<leftarrow>rest. (\<Sum>(a, w)\<leftarrow>z # ws. if a = n then w else 0) * F n)
      = (\<Sum>n\<leftarrow>rest. (if a = n then w else 0) * F n
            + (\<Sum>(a, w)\<leftarrow>ws. if a = n then w else 0) * F n)"
    by (simp add: z distrib_right)
  also have "\<dots> = (\<Sum>n\<leftarrow>rest. (if a = n then w else 0) * F n)
      + (\<Sum>n\<leftarrow>rest. (\<Sum>(a, w)\<leftarrow>ws. if a = n then w else 0) * F n)"
    by (rule sum_list_addf)
  also have "\<dots> = w * F a + (\<Sum>(a, w)\<leftarrow>ws. w * F a)"
    using sum_list_delta [OF assms(1), of a w F] a Cons.IH Cons.prems by simp
  finally show ?case by (simp add: z)
qed

lemma adjoint_set_derivative:
  "a < length h \<Longrightarrow>
   adjoint (set_derivative a (Some d) h) m = (if m = a then d else adjoint h m)"
  by (simp add: adjoint_def set_derivative_nth)

lemma tvalue_set_derivative: "tvalue (set_derivative a d h ! l) = tvalue (h ! l)"
  by (simp add: set_derivative_nth)

lemma backward_args_adjoint:
  assumes "backward_args node zs h = Inr h1" and "node \<notin> fst ` set zs"
    and "\<forall>z\<in>set zs. fst z < length h"
  shows "adjoint h1 m =
           adjoint h m + adjoint h node * (\<Sum>(a, l)\<leftarrow>zs. if a = m then tvalue (h ! l) else 0)"
  using assms
proof (induction zs arbitrary: h)
  case Nil
  then show ?case by simp
next
  case (Cons z zs)
  obtain arg ld where z: "z = (arg, ld)" by (cases z)
  from Cons.prems(1) obtain d where d: "derivative (h ! node) = Some d"
    unfolding z backward_args_Cons by (auto split: option.splits)
  define h2 where "h2 = set_derivative arg (Some (adjoint h arg + d * tvalue (h ! ld))) h"
  have run: "backward_args node zs h2 = Inr h1"
    using Cons.prems(1) d unfolding z backward_args_Cons h2_def by simp
  have live: "arg < length h" and ne: "node \<noteq> arg" using Cons.prems(2,3) z by auto
  have dn: "adjoint h node = d" using d by (simp add: adjoint_def)
  have adj2: "adjoint h2 k = (if k = arg then adjoint h arg + d * tvalue (h ! ld) else adjoint h k)"
    for k unfolding h2_def by (rule adjoint_set_derivative [OF live])
  have tv: "(\<lambda>(a, l). if a = m then tvalue (h2 ! l) else 0)
      = (\<lambda>(a, l). if a = m then tvalue (h ! l) else 0)"
    by (auto simp: h2_def tvalue_set_derivative fun_eq_iff)
  have "adjoint h1 m =
      adjoint h2 m + adjoint h2 node * (\<Sum>(a, l)\<leftarrow>zs. if a = m then tvalue (h2 ! l) else 0)"
  proof (rule Cons.IH [OF run])
    show "node \<notin> fst ` set zs" using Cons.prems(2) by simp
    show "\<forall>z\<in>set zs. fst z < length h2"
      using Cons.prems(3) by (simp add: h2_def set_derivative_length)
  qed
  then have "adjoint h1 m =
      adjoint h2 m + d * (\<Sum>(a, l)\<leftarrow>zs. if a = m then tvalue (h ! l) else 0)"
    using adj2 [of node] ne dn tv by simp
  then show ?case
    using adj2 [of m] dn by (simp add: z distrib_left)
qed

lemma parents_after_closed:
  "parents_after h xs \<Longrightarrow> c \<in> set xs \<Longrightarrow> set (parents h c) \<subseteq> set xs"
  by (induction xs) auto

lemma parents_before_after: "parents_before h {} xs \<Longrightarrow> parents_after h (rev xs)"
proof (induction xs rule: rev_induct)
  case Nil
  then show ?case by simp
next
  case (snoc n xs)
  then show ?case by (simp add: parents_before_append)
qed

lemma weights_parents: "fst ` set (weights h n) \<subseteq> set (parents h n)"
  unfolding weights_def by (auto dest: set_zip_leftD)

lemma tangent_zero:
  assumes "parents_after h xs" and "m \<notin> set xs"
    and "\<forall>n\<in>set xs. F n = (\<Sum>(a, w)\<leftarrow>weights h n. w * F a)"
  shows "\<forall>n\<in>set xs. F n = (0::real)"
  using assms
proof (induction xs)
  case Nil
  then show ?case by simp
next
  case (Cons c rest)
  have rest: "\<forall>n\<in>set rest. F n = 0" using Cons by simp
  have "\<forall>z\<in>set (weights h c). (case z of (a, w) \<Rightarrow> w * F a) = 0"
  proof
    fix z assume z: "z \<in> set (weights h c)"
    then have "fst z \<in> set (parents h c)" using weights_parents by blast
    then have "fst z \<in> set rest" using Cons.prems(1) by auto
    then show "(case z of (a, w) \<Rightarrow> w * F a) = 0" using rest by (cases z) simp
  qed
  then have "(\<Sum>(a, w)\<leftarrow>weights h c. w * F a) = 0" by (rule sum_list_zero)
  then have "F c = 0" using Cons.prems(3) by simp
  then show ?case using rest by simp
qed

lemma weights_leaf: "args (h ! n) = None \<Longrightarrow> weights h n = []"
  by (simp add: weights_def parents_def)

lemma weights_args:
  "args (h ! n) = Some as \<Longrightarrow> local_derivatives (h ! n) = Some ls \<Longrightarrow>
   weights h n = map (\<lambda>(a, l). (a, tvalue (h ! l))) (zip as ls)"
  by (simp add: weights_def parents_def local_values_def zip_map2)

lemma backward_nodes_step:
  assumes "well_formed h0" and "skeleton h = skeleton h0" and "c < length h0"
    and "c \<notin> set (parents h0 c)" and "backward_nodes (c # rest) h = Inr h'"
  shows "\<exists>h1. backward_nodes rest h1 = Inr h' \<and> skeleton h1 = skeleton h0 \<and>
           (\<forall>n. adjoint h1 n =
                 adjoint h n + adjoint h c * (\<Sum>(a, w)\<leftarrow>weights h0 c. if a = n then w else 0))"
proof (cases "args (h0 ! c)")
  case None
  then have "args (h ! c) = None" using skeleton_fields(2) [OF assms(2,3)] by simp
  then have "backward_nodes rest h = Inr h'" using assms(5) by simp
  then show ?thesis using assms(2) by (auto simp: weights_leaf [OF None])
next
  case (Some as)
  from well_formed_node [OF assms(1,3) Some] obtain ls where
      ls: "local_derivatives (h0 ! c) = Some ls" "length ls = length as"
      and live_as: "\<forall>a\<in>set as. a < length h0" and live_ls: "\<forall>l\<in>set ls. l < length h0"
    by blast
  have a: "args (h ! c) = Some as" and l: "local_derivatives (h ! c) = Some ls"
    using skeleton_fields(2,3) [OF assms(2,3)] Some ls(1) by auto
  from assms(5) a l obtain h1 where h1: "backward_args c (zip as ls) h = Inr h1"
      and rest: "backward_nodes rest h1 = Inr h'"
    by (auto split: sum.splits)
  have sk1: "skeleton h1 = skeleton h0"
    using backward_args_frame [OF h1] assms(2) by simp
  have len: "length h = length h0" using assms(2) by (rule skeleton_length)
  have "parents h0 c = as" using Some by (simp add: parents_def)
  then have "c \<notin> set as" using assms(4) by simp
  then have notin: "c \<notin> fst ` set (zip as ls)" by (auto dest: set_zip_leftD)
  have live_z: "\<forall>z\<in>set (zip as ls). fst z < length h"
    using live_as len by (auto dest: set_zip_leftD)
  have same: "(\<Sum>(a, l)\<leftarrow>zip as ls. if a = n then tvalue (h ! l) else 0)
      = (\<Sum>(a, w)\<leftarrow>weights h0 c. if a = n then w else 0)" for n
  proof -
    have e1: "map (\<lambda>(a, l). if a = n then tvalue (h ! l) else 0) (zip as ls)
        = map (\<lambda>(a, l). if a = n then tvalue (h0 ! l) else 0) (zip as ls)"
    proof (rule map_cong [OF refl])
      fix z assume "z \<in> set (zip as ls)"
      then have "snd z \<in> set ls" by (metis set_zip_rightD prod.collapse)
      then have "tvalue (h ! snd z) = tvalue (h0 ! snd z)"
        using skeleton_fields(1) [OF assms(2)] live_ls by simp
      then show "(case z of (a, l) \<Rightarrow> if a = n then tvalue (h ! l) else 0)
          = (case z of (a, l) \<Rightarrow> if a = n then tvalue (h0 ! l) else 0)"
        by (cases z) simp
    qed
    have e2: "map (\<lambda>(a, w). if a = n then w else 0) (weights h0 c)
        = map (\<lambda>(a, l). if a = n then tvalue (h0 ! l) else 0) (zip as ls)"
      by (simp add: weights_args [OF Some ls(1)] case_prod_unfold)
    show ?thesis unfolding e1 e2 by (rule refl)
  qed
  have "\<forall>n. adjoint h1 n =
      adjoint h n + adjoint h c * (\<Sum>(a, w)\<leftarrow>weights h0 c. if a = n then w else 0)"
    using backward_args_adjoint [OF h1 notin live_z] same by simp
  then show ?thesis using rest sk1 by blast
qed

lemma adjoint_invariant:
  assumes "well_formed h0"
  shows "skeleton h = skeleton h0 \<Longrightarrow> distinct todo \<Longrightarrow> parents_after h0 todo \<Longrightarrow>
     \<forall>c\<in>set todo. c < length h0 \<Longrightarrow> backward_nodes todo h = Inr h' \<Longrightarrow> m \<in> set todo \<Longrightarrow>
     F m = 1 \<Longrightarrow> \<forall>n\<in>set todo. n \<noteq> m \<longrightarrow> F n = (\<Sum>(a, w)\<leftarrow>weights h0 n. w * F a) \<Longrightarrow>
     adjoint h' m = (\<Sum>n\<leftarrow>todo. adjoint h n * F n)"
proof (induction todo arbitrary: h)
  case Nil
  then show ?case by simp
next
  case (Cons c rest)
  have live: "c < length h0" and live_rest: "\<forall>c\<in>set rest. c < length h0"
    using Cons.prems(4) by simp_all
  have par: "set (parents h0 c) \<subseteq> set rest" and after: "parents_after h0 rest"
    using Cons.prems(3) by simp_all
  have c_rest: "c \<notin> set rest" and dist: "distinct rest" using Cons.prems(2) by simp_all
  have noself: "c \<notin> set (parents h0 c)" using par c_rest by blast
  define W where "W n = (\<Sum>(a, w)\<leftarrow>weights h0 c. if a = n then w else 0)" for n
  from backward_nodes_step [OF assms Cons.prems(1) live noself Cons.prems(5)]
  obtain h1 where run: "backward_nodes rest h1 = Inr h'" and sk1: "skeleton h1 = skeleton h0"
    and adj1: "\<And>n. adjoint h1 n = adjoint h n + adjoint h c * W n"
    unfolding W_def by blast
  have wsub: "fst ` set (weights h0 c) \<subseteq> set rest" using weights_parents par by blast
  show ?case
  proof (cases "c = m")
    case True
    have "\<forall>z\<in>set (weights h0 c). (case z of (a, w) \<Rightarrow> if a = m then w else 0) = 0"
    proof
      fix z assume "z \<in> set (weights h0 c)"
      then have "fst z \<in> set rest" using wsub by blast
      then have "fst z \<noteq> m" using c_rest True by auto
      then show "(case z of (a, w) \<Rightarrow> if a = m then w else 0) = 0" by (cases z) simp
    qed
    then have "W m = 0" unfolding W_def by (rule sum_list_zero)
    then have a1: "adjoint h1 m = adjoint h m" using adj1 by simp
    have len1: "length h1 = length h0" using sk1 by (rule skeleton_length)
    have "\<forall>c'\<in>set rest. m \<notin> set (parents h1 c')"
    proof
      fix c' assume c': "c' \<in> set rest"
      then have "set (parents h0 c') \<subseteq> set rest" using parents_after_closed [OF after] by simp
      moreover have "parents h1 c' = parents h0 c'"
        using skeleton_parents [OF sk1] live_rest c' by simp
      ultimately show "m \<notin> set (parents h1 c')" using c_rest True by auto
    qed
    moreover have "\<forall>c\<in>set rest. c < length h1" using live_rest len1 by simp
    ultimately have "h' ! m = h1 ! m" using backward_nodes_frame [OF run] by blast
    then have a2: "adjoint h' m = adjoint h m" using a1 by (simp add: adjoint_def)
    have "\<forall>n\<in>set rest. F n = 0"
    proof (rule tangent_zero [OF after])
      show "m \<notin> set rest" using c_rest True by simp
      show "\<forall>n\<in>set rest. F n = (\<Sum>(a, w)\<leftarrow>weights h0 n. w * F a)"
        using Cons.prems(8) c_rest True by auto
    qed
    then have "(\<Sum>n\<leftarrow>rest. adjoint h n * F n) = 0" by (intro sum_list_zero) simp
    then show ?thesis using a2 True Cons.prems(7) by simp
  next
    case False
    then have m: "m \<in> set rest" using Cons.prems(6) by simp
    have Fc: "F c = (\<Sum>(a, w)\<leftarrow>weights h0 c. w * F a)" using Cons.prems(8) False by simp
    have "adjoint h' m = (\<Sum>n\<leftarrow>rest. adjoint h1 n * F n)"
    proof (rule Cons.IH [OF sk1 dist after live_rest run m Cons.prems(7)])
      show "\<forall>n\<in>set rest. n \<noteq> m \<longrightarrow> F n = (\<Sum>(a, w)\<leftarrow>weights h0 n. w * F a)"
        using Cons.prems(8) by simp
    qed
    also have "\<dots> = (\<Sum>n\<leftarrow>rest. adjoint h n * F n + adjoint h c * (W n * F n))"
      by (simp add: adj1 distrib_right mult.assoc)
    also have "\<dots> = (\<Sum>n\<leftarrow>rest. adjoint h n * F n) + (\<Sum>n\<leftarrow>rest. adjoint h c * (W n * F n))"
      by (rule sum_list_addf)
    also have "(\<Sum>n\<leftarrow>rest. adjoint h c * (W n * F n)) = adjoint h c * (\<Sum>n\<leftarrow>rest. W n * F n)"
      by (rule sum_list_const_mult)
    also have "(\<Sum>n\<leftarrow>rest. W n * F n) = (\<Sum>(a, w)\<leftarrow>weights h0 c. w * F a)"
      unfolding W_def by (rule sum_list_swap [OF dist wsub])
    finally show ?thesis using Fc by simp
  qed
qed

lemma backward_adjoint:
  assumes "well_formed h" and "dag h" and "rt < length h"
    and "\<forall>n\<in>reachable h rt. derivative (h ! n) = None"
    and "m \<in> reachable h rt" and "F m = 1"
    and "\<forall>n\<in>reachable h rt. n \<noteq> m \<longrightarrow> F n = (\<Sum>(a, w)\<leftarrow>weights h n. w * F a)"
  shows "\<exists>h'. backward rt h = Inr h' \<and> derivative (h' ! m) = Some (F rt)"
proof -
  obtain order visited where bt: "build_topo h rt ([], {}) = (order, visited)"
    by (cases "build_topo h rt ([], {})")
  note facts = build_topo_order [OF assms(1-3) bt]
  define h1 where "h1 = set_derivative rt (Some 1) h"
  from backward_succeeds [OF assms(1-3) bt] obtain h' where h': "backward rt h = Inr h'"
      "backward_nodes (rev order) h1 = Inr h'" "\<forall>m\<in>reachable h rt. derivative (h' ! m) \<noteq> None"
    unfolding h1_def by blast
  have sk1: "skeleton h1 = skeleton h" by (simp add: h1_def skeleton_set_derivative)
  have "adjoint h' m = (\<Sum>n\<leftarrow>rev order. adjoint h1 n * F n)"
  proof (rule adjoint_invariant [where F = F and m = m and todo = "rev order",
        OF assms(1) sk1 _ _ _ h'(2) _ assms(6)])
    show "distinct (rev order)" using facts(1) by simp
    show "parents_after h (rev order)" using parents_before_after [OF facts(4)] .
    show "\<forall>c\<in>set (rev order). c < length h" using facts(6) by simp
    show "m \<in> set (rev order)" using assms(5) facts(2) by simp
    show "\<forall>n\<in>set (rev order). n \<noteq> m \<longrightarrow> F n = (\<Sum>(a, w)\<leftarrow>weights h n. w * F a)"
      using assms(7) facts(2) by simp
  qed
  also have "(\<Sum>n\<leftarrow>rev order. adjoint h1 n * F n)
      = (\<Sum>n\<leftarrow>rev order. (if rt = n then 1 else 0) * F n)"
  proof (rule arg_cong [where f = sum_list], rule map_cong [OF refl])
    fix n assume "n \<in> set (rev order)"
    then have "derivative (h ! n) = None" using assms(4) facts(2) by simp
    then have "adjoint h1 n = (if rt = n then 1 else 0)"
      using assms(3) by (auto simp: h1_def adjoint_def set_derivative_nth)
    then show "adjoint h1 n * F n = (if rt = n then 1 else 0) * F n" by simp
  qed
  also have "\<dots> = F rt"
    using sum_list_delta [of "rev order" rt 1 F] facts(1,2) reachable_refl [of rt h] by simp
  finally have "adjoint h' m = F rt" .
  moreover obtain d where "derivative (h' ! m) = Some d" using h'(3) assms(5) by auto
  ultimately show ?thesis using h'(1) by (simp add: adjoint_def)
qed

section \<open>Graphs built from the operations, and their partial derivatives\<close>

lemma exec_Leaf: "exec (Leaf v nm) h = h @ [leaf_object v nm]"
  by (simp add: Tensor_init_def leaf_object_def)

lemma exec_Add:
  "exec (Add a b) h =
     h @ [\<lparr>tvalue = tvalue (h ! a) + tvalue (h ! b), args = Some [a, b],
            local_derivatives = Some [Suc (length h), Suc (Suc (length h))],
            derivative = None, name = None\<rparr>,
          leaf_object 1 None, leaf_object 1 None]"
  by (simp add: op_add_def Tensor_init_def set_args_def set_local_derivatives_def Let_def
      leaf_object_def)

lemma exec_Sub:
  "exec (Sub a b) h =
     h @ [\<lparr>tvalue = tvalue (h ! a) - tvalue (h ! b), args = Some [a, b],
            local_derivatives = Some [Suc (length h), Suc (Suc (length h))],
            derivative = None, name = None\<rparr>,
          leaf_object 1 None, leaf_object (- 1) None]"
  by (simp add: op_sub_def Tensor_init_def set_args_def set_local_derivatives_def Let_def
      leaf_object_def)

lemma exec_Mul:
  "exec (Mul a b) h =
     h @ [\<lparr>tvalue = tvalue (h ! a) * tvalue (h ! b), args = Some [a, b],
            local_derivatives = Some [b, a], derivative = None, name = None\<rparr>]"
  by (simp add: op_mul_eq)

lemmas exec_eqs = exec_Leaf exec_Add exec_Sub exec_Mul

declare exec.simps [simp del]

lemma build_snoc: "build (prog @ [i]) = exec i (build prog)"
  by (simp add: build_def)

lemma eval_with_snoc:
  "eval_with m x (prog @ [i]) = (step_values i (eval_with m x prog))[m := x]"
  by (simp add: eval_with_def)

lemma valid_prog_snoc:
  "valid_prog (prog @ [i]) \<longleftrightarrow>
     valid_prog prog \<and> (\<forall>a\<in>set (operands i). a < length (build prog))"
proof -
  have "(\<forall>k<Suc (length prog). P k) \<longleftrightarrow> (\<forall>k<length prog. P k) \<and> P (length prog)" for P
    by (auto simp: less_Suc_eq)
  then show ?thesis by (simp add: valid_prog_def nth_append)
qed

lemma exec_old: "n < length h \<Longrightarrow> exec i h ! n = h ! n"
  by (cases i) (simp_all add: exec_eqs nth_append)

lemma exec_length: "length h \<le> length (exec i h)"
  by (cases i) (simp_all add: exec_eqs)

lemma exec_well_formed:
  assumes "well_formed h" and "\<forall>a\<in>set (operands i). a < length h"
  shows "well_formed (exec i h)"
  unfolding well_formed_def
proof (intro allI impI)
  fix n assume n: "n < length (exec i h)"
  show "case args (exec i h ! n) of None \<Rightarrow> True
        | Some as \<Rightarrow> (\<forall>a\<in>set as. a < length (exec i h)) \<and>
            (case local_derivatives (exec i h ! n) of None \<Rightarrow> False
             | Some ls \<Rightarrow> length ls = length as \<and> (\<forall>l\<in>set ls. l < length (exec i h)))"
  proof (cases "n < length h")
    case True
    have "case args (h ! n) of None \<Rightarrow> True
        | Some as \<Rightarrow> (\<forall>a\<in>set as. a < length h) \<and>
            (case local_derivatives (h ! n) of None \<Rightarrow> False
             | Some ls \<Rightarrow> length ls = length as \<and> (\<forall>l\<in>set ls. l < length h))"
      using assms(1) True unfolding well_formed_def by blast
    then show ?thesis
      using exec_old [OF True, of i] exec_length [of h i]
      by (auto split: option.splits)
  next
    case False
    then show ?thesis
      using n assms(2)
      by (cases i) (auto simp: exec_eqs nth_append leaf_object_def nth_Cons' less_Suc_eq)
  qed
qed

lemma exec_ordered:
  assumes "ordered h" and "\<forall>a\<in>set (operands i). a < length h"
  shows "ordered (exec i h)"
  unfolding ordered_def
proof (intro allI impI ballI)
  fix n a assume n: "n < length (exec i h)" and a: "a \<in> set (parents (exec i h) n)"
  show "a < n"
  proof (cases "n < length h")
    case True
    then show ?thesis
      using assms(1) a exec_old [OF True, of i] by (simp add: ordered_def parents_def)
  next
    case False
    then show ?thesis
      using n a assms(2)
      by (cases i)
        (auto simp: exec_eqs nth_append leaf_object_def nth_Cons' parents_def less_Suc_eq
          split: if_splits)
  qed
qed

lemma exec_fresh:
  assumes "\<forall>n<length h. derivative (h ! n) = None"
  shows "\<forall>n<length (exec i h). derivative (exec i h ! n) = None"
proof (intro allI impI)
  fix n assume n: "n < length (exec i h)"
  show "derivative (exec i h ! n) = None"
  proof (cases "n < length h")
    case True
    then show ?thesis using assms exec_old [OF True, of i] by simp
  next
    case False
    then show ?thesis
      using n by (cases i) (auto simp: exec_eqs nth_append leaf_object_def nth_Cons' less_Suc_eq)
  qed
qed

lemma exec_values:
  assumes "\<forall>a\<in>set (operands i). a < length h"
  shows "map tvalue (exec i h) = step_values i (map tvalue h)"
  using assms by (cases i) (simp_all add: exec_eqs leaf_object_def)

lemma build_invariants:
  assumes "valid_prog prog"
  shows "well_formed (build prog)" and "ordered (build prog)"
    and "\<forall>n<length (build prog). derivative (build prog ! n) = None"
  using assms
proof (induction prog rule: rev_induct)
  case Nil
  {
    case 1 show ?case by (simp add: build_def well_formed_def)
  next
    case 2 show ?case by (simp add: build_def ordered_def)
  next
    case 3 show ?case by (simp add: build_def)
  }
next
  case (snoc i prog)
  {
    case 1
    then show ?case
      using snoc.IH(1) exec_well_formed by (simp add: valid_prog_snoc build_snoc)
  next
    case 2
    then show ?case
      using snoc.IH(2) exec_ordered by (simp add: valid_prog_snoc build_snoc)
  next
    case 3
    then show ?case
      using snoc.IH(3) exec_fresh [of "build prog" i] by (simp add: valid_prog_snoc build_snoc)
  }
qed

lemma ordered_is_dag: "ordered h \<Longrightarrow> dag h"
  by (rule ordered_dag) (simp add: ordered_def)

lemma step_values_length: "length vs = length h \<Longrightarrow> length (step_values i vs) = length (exec i h)"
  by (cases i) (simp_all add: exec_eqs)

lemma step_values_old: "n < length vs \<Longrightarrow> step_values i vs ! n = vs ! n"
  by (cases i) (simp_all add: nth_append)

lemma eval_with_length: "length (eval_with m x prog) = length (build prog)"
proof (induction prog rule: rev_induct)
  case Nil
  then show ?case by (simp add: eval_with_def build_def)
next
  case (snoc i prog)
  then show ?case by (simp add: eval_with_snoc build_snoc step_values_length)
qed

lemma eval_with_at: "m < length (build prog) \<Longrightarrow> eval_with m x prog ! m = x"
proof (cases prog rule: rev_cases)
  case Nil
  assume "m < length (build prog)"
  then show ?thesis using Nil by (simp add: build_def)
next
  case (snoc pre i)
  assume "m < length (build prog)"
  then have "m < length (step_values i (eval_with m x pre))"
    using snoc step_values_length [of "eval_with m x pre" "build pre" i]
      eval_with_length [of m x pre] by (simp add: build_snoc)
  then show ?thesis using snoc by (simp add: eval_with_snoc)
qed

lemma eval_with_old:
  assumes "n < length (build prog)"
  shows "eval_with m x (prog @ [i]) ! n = eval_with m x prog ! n"
proof -
  have n: "n < length (eval_with m x prog)" using assms by (simp add: eval_with_length)
  show ?thesis
  proof (cases "n = m")
    case True
    have "m < length (step_values i (eval_with m x prog))"
      using n True step_values_old [OF n, of i]
      by (cases i) simp_all
    then have "eval_with m x (prog @ [i]) ! m = x" by (simp add: eval_with_snoc)
    then show ?thesis using True eval_with_at [OF assms] by simp
  next
    case False
    then show ?thesis by (simp add: eval_with_snoc step_values_old [OF n])
  qed
qed

lemma eval_with_values:
  assumes "valid_prog prog" and "m < length (build prog) \<longrightarrow> tvalue (build prog ! m) = x0"
  shows "eval_with m x0 prog = map tvalue (build prog)"
  using assms
proof (induction prog rule: rev_induct)
  case Nil
  then show ?case by (simp add: eval_with_def build_def)
next
  case (snoc i prog)
  have valid: "valid_prog prog" and ops: "\<forall>a\<in>set (operands i). a < length (build prog)"
    using snoc.prems(1) by (simp_all add: valid_prog_snoc)
  have "m < length (build prog) \<longrightarrow> tvalue (build prog ! m) = x0"
    using snoc.prems(2) exec_old [of m "build prog" i] exec_length [of "build prog" i]
    by (auto simp: build_snoc)
  then have ih: "eval_with m x0 prog = map tvalue (build prog)" using snoc.IH valid by simp
  have "eval_with m x0 (prog @ [i]) = (map tvalue (exec i (build prog)))[m := x0]"
    by (simp add: eval_with_snoc ih exec_values [OF ops])
  also have "\<dots> = map tvalue (exec i (build prog))"
  proof (cases "m < length (exec i (build prog))")
    case True
    then show ?thesis using snoc.prems(2) by (simp add: build_snoc list_update_same_conv)
  next
    case False
    then show ?thesis by (simp add: list_update_beyond)
  qed
  finally show ?case by (simp add: build_snoc)
qed

lemma weights_old:
  assumes "well_formed h" and "n < length h"
  shows "weights (exec i h) n = weights h n"
proof (cases "args (h ! n)")
  case None
  then show ?thesis using exec_old [OF assms(2), of i] by (simp add: weights_leaf)
next
  case (Some as)
  from well_formed_node [OF assms Some] obtain ls where
      ls: "local_derivatives (h ! n) = Some ls" "\<forall>l\<in>set ls. l < length h" by blast
  have e: "map (\<lambda>l. tvalue (exec i h ! l)) ls = map (\<lambda>l. tvalue (h ! l)) ls"
    using ls(2) by (auto simp: exec_old)
  show ?thesis
    using exec_old [OF assms(2), of i] Some ls(1)
    by (simp add: weights_def parents_def local_values_def e)
qed

lemma weights_new:
  assumes "\<forall>a\<in>set (operands i). a < length h" and "length h \<le> n" and "n < length (exec i h)"
  shows "weights (exec i h) n =
     (if n = length h then
        (case i of Leaf v nm \<Rightarrow> []
         | Add a b \<Rightarrow> [(a, 1), (b, 1)]
         | Sub a b \<Rightarrow> [(a, 1), (b, - 1)]
         | Mul a b \<Rightarrow> [(a, tvalue (h ! b)), (b, tvalue (h ! a))])
      else [])"
  using assms
  by (cases i)
    (auto simp: exec_eqs weights_def parents_def local_values_def nth_append leaf_object_def
      nth_Cons' less_Suc_eq)

lemma new_tangent:
  fixes F :: "addr \<Rightarrow> real"
  assumes ops: "\<forall>a\<in>set (operands i). a < length (build prog)"
    and ok: "tangent_ok m x0 prog F"
    and vals: "eval_with m x0 prog = map tvalue (build prog)"
    and n: "length (build prog) \<le> n" "n < length (build (prog @ [i]))"
  shows "\<exists>d. ((\<lambda>x. eval_with m x (prog @ [i]) ! n) has_field_derivative d) (at x0) \<and>
           (n = m \<longrightarrow> d = 1) \<and>
           (n \<noteq> m \<longrightarrow> d = (\<Sum>(a, w)\<leftarrow>weights (build (prog @ [i])) n. w * F a))"
proof (cases "n = m")
  case True
  have "(\<lambda>x. eval_with m x (prog @ [i]) ! n) = (\<lambda>x. x)"
    using eval_with_at [of m "prog @ [i]"] n(2) True by auto
  then have "((\<lambda>x. eval_with m x (prog @ [i]) ! n) has_field_derivative 1) (at x0)"
    by simp
  then show ?thesis using True by blast
next
  case False
  define k where "k = length (build prog)"
  have len: "length (eval_with m x prog) = k" for x by (simp add: eval_with_length k_def)
  have ev: "eval_with m x (prog @ [i]) ! n = step_values i (eval_with m x prog) ! n" for x
    using False by (simp add: eval_with_snoc)
  have w: "weights (build (prog @ [i])) n =
     (if n = k then
        (case i of Leaf v nm \<Rightarrow> []
         | Add a b \<Rightarrow> [(a, 1), (b, 1)]
         | Sub a b \<Rightarrow> [(a, 1), (b, - 1)]
         | Mul a b \<Rightarrow> [(a, tvalue (build prog ! b)), (b, tvalue (build prog ! a))])
      else [])"
    using weights_new [OF ops n(1)] n(2) by (simp add: build_snoc k_def)
  have der: "((\<lambda>x. eval_with m x prog ! a) has_field_derivative F a) (at x0)" if "a < k" for a
    using ok that unfolding tangent_ok_def k_def by blast
  have val: "eval_with m x0 prog ! a = tvalue (build prog ! a)" if "a < k" for a
    using vals that by (simp add: k_def)
  have nk: "k \<le> n" using n(1) by (simp add: k_def)
  show ?thesis
  proof (cases "n = k")
    case far: False
    then have "weights (build (prog @ [i])) n = []" using w by simp
    moreover have "\<exists>c. \<forall>x. step_values i (eval_with m x prog) ! n = c"
      using far nk n(2) len
      by (cases i) (auto simp: build_snoc exec_eqs nth_append nth_Cons' k_def)
    then obtain c where "(\<lambda>x. eval_with m x (prog @ [i]) ! n) = (\<lambda>x. c)"
      using ev by auto
    then have "((\<lambda>x. eval_with m x (prog @ [i]) ! n) has_field_derivative 0) (at x0)"
      by simp
    ultimately show ?thesis using False by auto
  next
    case here: True
    show ?thesis
    proof (cases i)
      case (Leaf v nm)
      have "eval_with m x (prog @ [i]) ! n = v" for x
        unfolding ev using here len [of x] by (simp add: Leaf nth_append)
      then have "(\<lambda>x. eval_with m x (prog @ [i]) ! n) = (\<lambda>x. v)"
        by (intro ext)
      then have "((\<lambda>x. eval_with m x (prog @ [i]) ! n) has_field_derivative 0) (at x0)"
        by simp
      then show ?thesis using False w here Leaf by auto
    next
      case (Add a b)
      then have ab: "a < k" "b < k" using ops by (simp_all add: k_def)
      have "eval_with m x (prog @ [i]) ! n = eval_with m x prog ! a + eval_with m x prog ! b" for x
        unfolding ev using here len [of x] by (simp add: Add nth_append)
      then have "(\<lambda>x. eval_with m x (prog @ [i]) ! n)
          = (\<lambda>x. eval_with m x prog ! a + eval_with m x prog ! b)"
        by (intro ext)
      then have "((\<lambda>x. eval_with m x (prog @ [i]) ! n) has_field_derivative F a + F b) (at x0)"
        using DERIV_add [OF der [OF ab(1)] der [OF ab(2)]] by simp
      then show ?thesis using False w here Add by auto
    next
      case (Sub a b)
      then have ab: "a < k" "b < k" using ops by (simp_all add: k_def)
      have "eval_with m x (prog @ [i]) ! n = eval_with m x prog ! a - eval_with m x prog ! b" for x
        unfolding ev using here len [of x] by (simp add: Sub nth_append)
      then have "(\<lambda>x. eval_with m x (prog @ [i]) ! n)
          = (\<lambda>x. eval_with m x prog ! a - eval_with m x prog ! b)"
        by (intro ext)
      then have "((\<lambda>x. eval_with m x (prog @ [i]) ! n) has_field_derivative F a - F b) (at x0)"
        using DERIV_diff [OF der [OF ab(1)] der [OF ab(2)]] by simp
      then show ?thesis using False w here Sub by auto
    next
      case (Mul a b)
      then have ab: "a < k" "b < k" using ops by (simp_all add: k_def)
      have "eval_with m x (prog @ [i]) ! n = eval_with m x prog ! a * eval_with m x prog ! b" for x
        unfolding ev using here len [of x] by (simp add: Mul nth_append)
      then have "(\<lambda>x. eval_with m x (prog @ [i]) ! n)
          = (\<lambda>x. eval_with m x prog ! a * eval_with m x prog ! b)"
        by (intro ext)
      then have "((\<lambda>x. eval_with m x (prog @ [i]) ! n) has_field_derivative
          F a * tvalue (build prog ! b) + F b * tvalue (build prog ! a)) (at x0)"
        using DERIV_mult [OF der [OF ab(1)] der [OF ab(2)]] val [OF ab(1)] val [OF ab(2)]
        by simp
      then show ?thesis using False w here Mul by (auto simp: mult.commute)
    qed
  qed
qed

lemma weights_below:
  assumes "well_formed h" and "\<forall>a\<in>set (operands i). a < length h" and "n < length (exec i h)"
  shows "\<forall>z\<in>set (weights (exec i h) n). fst z < length h"
proof (cases "n < length h")
  case True
  have "fst ` set (weights h n) \<subseteq> set (parents h n)" by (rule weights_parents)
  then show ?thesis
    using weights_old [OF assms(1) True, of i] well_formed_parents [OF assms(1) True] by auto
next
  case False
  then show ?thesis
    using weights_new [OF assms(2) _ assms(3)] assms(2)
    by (cases i) (auto split: if_splits)
qed

lemma tangent_exists:
  assumes "valid_prog prog" and "m < length (build prog) \<longrightarrow> tvalue (build prog ! m) = x0"
  shows "\<exists>F. tangent_ok m x0 prog F"
  using assms
proof (induction prog rule: rev_induct)
  case Nil
  then show ?case by (simp add: tangent_ok_def build_def)
next
  case (snoc i prog)
  define k where "k = length (build prog)"
  have valid: "valid_prog prog" and ops: "\<forall>a\<in>set (operands i). a < length (build prog)"
    using snoc.prems(1) by (simp_all add: valid_prog_snoc)
  have pre: "m < length (build prog) \<longrightarrow> tvalue (build prog ! m) = x0"
    using snoc.prems(2) exec_old [of m "build prog" i] exec_length [of "build prog" i]
    by (auto simp: build_snoc)
  from snoc.IH [OF valid pre] obtain F where F: "tangent_ok m x0 prog F" by blast
  note vals = eval_with_values [OF valid pre]
  note wf = build_invariants(1) [OF valid]
  have "\<forall>n. \<exists>d. k \<le> n \<and> n < length (build (prog @ [i])) \<longrightarrow>
      ((\<lambda>x. eval_with m x (prog @ [i]) ! n) has_field_derivative d) (at x0) \<and>
      (n = m \<longrightarrow> d = 1) \<and>
      (n \<noteq> m \<longrightarrow> d = (\<Sum>(a, w)\<leftarrow>weights (build (prog @ [i])) n. w * F a))"
    using new_tangent [OF ops F vals] unfolding k_def by blast
  then obtain G where G: "\<And>n. k \<le> n \<Longrightarrow> n < length (build (prog @ [i])) \<Longrightarrow>
      ((\<lambda>x. eval_with m x (prog @ [i]) ! n) has_field_derivative G n) (at x0) \<and>
      (n = m \<longrightarrow> G n = 1) \<and>
      (n \<noteq> m \<longrightarrow> G n = (\<Sum>(a, w)\<leftarrow>weights (build (prog @ [i])) n. w * F a))"
    using choice [of "\<lambda>n d. k \<le> n \<and> n < length (build (prog @ [i])) \<longrightarrow>
      ((\<lambda>x. eval_with m x (prog @ [i]) ! n) has_field_derivative d) (at x0) \<and>
      (n = m \<longrightarrow> d = 1) \<and>
      (n \<noteq> m \<longrightarrow> d = (\<Sum>(a, w)\<leftarrow>weights (build (prog @ [i])) n. w * F a))"]
    by blast
  define F' where "F' n = (if n < k then F n else G n)" for n
  have sums: "(\<Sum>(a, w)\<leftarrow>weights (build (prog @ [i])) n. w * F' a)
      = (\<Sum>(a, w)\<leftarrow>weights (build (prog @ [i])) n. w * F a)"
    if "n < length (build (prog @ [i]))" for n
  proof (rule arg_cong [where f = sum_list], rule map_cong [OF refl])
    fix z assume "z \<in> set (weights (build (prog @ [i])) n)"
    then have "fst z < k"
      using weights_below [OF wf ops, of n] that by (simp add: build_snoc k_def)
    then show "(case z of (a, w) \<Rightarrow> w * F' a) = (case z of (a, w) \<Rightarrow> w * F a)"
      by (cases z) (simp add: F'_def)
  qed
  have "tangent_ok m x0 (prog @ [i]) F'"
    unfolding tangent_ok_def
  proof (intro allI impI)
    fix n assume n: "n < length (build (prog @ [i]))"
    show "((\<lambda>x. eval_with m x (prog @ [i]) ! n) has_field_derivative F' n) (at x0) \<and>
        (n = m \<longrightarrow> F' n = 1) \<and>
        (n \<noteq> m \<longrightarrow> F' n = (\<Sum>(a, w)\<leftarrow>weights (build (prog @ [i])) n. w * F' a))"
    proof (cases "n < k")
      case True
      then have old: "n < length (build prog)" by (simp add: k_def)
      have "(\<lambda>x. eval_with m x (prog @ [i]) ! n) = (\<lambda>x. eval_with m x prog ! n)"
        by (intro ext eval_with_old [OF old])
      moreover have "((\<lambda>x. eval_with m x prog ! n) has_field_derivative F n) (at x0)"
          "n = m \<longrightarrow> F n = 1"
          "n \<noteq> m \<longrightarrow> F n = (\<Sum>(a, w)\<leftarrow>weights (build prog) n. w * F a)"
        using F old unfolding tangent_ok_def by blast+
      moreover have "weights (build (prog @ [i])) n = weights (build prog) n"
        using weights_old [OF wf old] by (simp add: build_snoc)
      ultimately show ?thesis using True sums [OF n] by (simp add: F'_def)
    next
      case False
      then have "k \<le> n" by simp
      from G [OF this n] show ?thesis using False sums [OF n] by (simp add: F'_def)
    qed
  qed
  then show ?case by blast
qed

lemma reachable_live:
  assumes "well_formed h" and "rt < length h" and "m \<in> reachable h rt"
  shows "m < length h"
proof -
  from assms(3) have "(m, rt) \<in> (edges h)\<^sup>*" by (simp add: reachable_def)
  then show ?thesis
  proof (cases rule: converse_rtranclE)
    case base
    then show ?thesis using assms(2) by simp
  next
    case (step c)
    then have "c < length h" "m \<in> set (parents h c)" by (simp_all add: edges_def)
    then show ?thesis using well_formed_parents [OF assms(1)] by blast
  qed
qed

lemma quicktest_build: "build quicktest_prog = quicktest_heap"
  by (simp add: quicktest_prog_def build_def exec_eqs quicktest_heap_eq leaf_object_def)

lemma quicktest_valid: "valid_prog quicktest_prog"
  by (simp add: valid_prog_def quicktest_prog_def build_def exec_eqs less_numeral_cases)

text \<open>
  C1. For a graph built from the constructor and the three operations (so acyclic,
  with no derivative set yet), any root and any object \<open>m\<close> reachable from the root,
  \<^verbatim>\<open>backward\<close> on the root returns, and afterwards \<open>m\<close> holds a derivative equal to the
  partial derivative of the root's value with respect to the value of \<open>m\<close>. The
  contributions that reach \<open>m\<close> along different paths are added up by the accumulating
  update of the loop (\<open>backward_args_adjoint\<close>), which is what the chain rule asks for.
\<close>

theorem backward_computes_partial_derivatives:
  assumes "valid_prog prog" and "rt < length (build prog)"
    and "m \<in> reachable (build prog) rt"
  shows "\<exists>h' d. backward rt (build prog) = Inr h' \<and> derivative (h' ! m) = Some d \<and>
           ((\<lambda>x. eval_with m x prog ! rt) has_field_derivative d) (at (tvalue (build prog ! m)))"
proof -
  define h where "h = build prog"
  note inv = build_invariants [OF assms(1), folded h_def]
  have dag: "dag h" using inv(2) by (rule ordered_is_dag)
  have live: "n < length h" if "n \<in> reachable h rt" for n
    using reachable_live [OF inv(1)] assms(2) that by (simp add: h_def)
  obtain F where F: "tangent_ok m (tvalue (h ! m)) prog F"
    using tangent_exists [OF assms(1), of m "tvalue (h ! m)"] by (auto simp: h_def)
  have m: "m \<in> reachable h rt" using assms(3) by (simp add: h_def)
  have rt: "rt < length h" using assms(2) by (simp add: h_def)
  have Fm: "F m = 1" using F live [OF m] unfolding tangent_ok_def h_def by blast
  have rec: "\<forall>n\<in>reachable h rt. n \<noteq> m \<longrightarrow> F n = (\<Sum>(a, w)\<leftarrow>weights h n. w * F a)"
    using F live unfolding tangent_ok_def h_def by blast
  have fresh: "\<forall>n\<in>reachable h rt. derivative (h ! n) = None"
    using inv(3) live by blast
  from backward_adjoint [OF inv(1) dag rt fresh m Fm rec] obtain h' where
      h': "backward rt h = Inr h'" "derivative (h' ! m) = Some (F rt)" by blast
  have "((\<lambda>x. eval_with m x prog ! rt) has_field_derivative F rt) (at (tvalue (h ! m)))"
    using F rt unfolding tangent_ok_def h_def by blast
  then show ?thesis using h' unfolding h_def by blast
qed

theorem backward_computes_partial_derivatives_witness:
  "valid_prog quicktest_prog \<and> 7 < length (build quicktest_prog) \<and>
   0 \<in> reachable (build quicktest_prog) 7 \<and>
   backward 7 (build quicktest_prog) = Inr quicktest_result \<and>
   derivative (quicktest_result ! 0) = Some 13 \<and>
   ((\<lambda>x. eval_with 0 x quicktest_prog ! 7) has_field_derivative 13)
     (at (tvalue (build quicktest_prog ! 0)))"
proof -
  have a: "7 < length (build quicktest_prog)" by (simp add: quicktest_build quicktest_length)
  have b: "0 \<in> reachable (build quicktest_prog) 7"
    by (simp add: quicktest_build quicktest_reachable)
  have c: "backward 7 (build quicktest_prog) = Inr quicktest_result"
    by (simp add: quicktest_build quicktest_backward)
  have d: "derivative (quicktest_result ! 0) = Some 13" by (simp add: quicktest_result_def)
  from backward_computes_partial_derivatives [OF quicktest_valid a b] c d
  have "((\<lambda>x. eval_with 0 x quicktest_prog ! 7) has_field_derivative 13)
     (at (tvalue (build quicktest_prog ! 0)))" by auto
  then show ?thesis using quicktest_valid a b c d by blast
qed

end
